theory Spec2Isabelle
  imports Main
begin

section \<open>Data model\<close>

text \<open>
  The engine is the C++ class \<open>Downloader\<close> (Downloader.h, Downloader.cpp). An observer
  handle \<open>IDownloaderObserver*\<close> is an address; address 0 is \<open>nullptr\<close>.
\<close>

type_synonym observer = nat

definition nullptr :: observer where
  "nullptr = 0"

type_synonym bytes = "char list"

text \<open>\<open>enum class DownloadState\<close> (IDownloaderObserver.h) and \<open>enum class CurlResult\<close>
  (ICurlHandle.h), in the order of the source.\<close>

datatype DownloadState = IDLE | DOWNLOADING | PAUSED | COMPLETED | CANCELLED | ERROR

datatype CurlResult =
  OK | ABORTED_BY_CALLBACK | HTTP_ERROR | NETWORK_ERROR | RANGE_NOT_SATISFIED | OTHER_ERROR

text \<open>
  The \<open>double percent\<close> argument of \<open>onProgress\<close> is kept as the expression the source
  evaluates, so that no floating-point rounding is assumed:
  \<^item> \<open>PercentUnknown\<close> is the literal \<open>-1.0\<close>;
  \<^item> \<open>PercentOf a b\<close> is \<open>static_cast<double>(a) / static_cast<double>(b) * 100.0\<close>;
  \<^item> \<open>Percent100\<close> is the literal \<open>100.0\<close>.
\<close>

datatype percent = PercentUnknown | PercentOf int int | Percent100

text \<open>The six virtual methods of \<open>IDownloaderObserver\<close>, with their arguments.\<close>

datatype event =
    OnProgress int int percent
  | OnCompleted
  | OnError string
  | OnPaused
  | OnResumed
  | OnCancelled

text \<open>What \<open>doDownload\<close> sets on the curl handle before \<open>perform()\<close>: \<open>setUrl\<close> and,
  only when it is called, \<open>setResumeFrom\<close>.\<close>

record curl_request =
  req_url :: string
  req_resumeFrom :: "int option"

text \<open>
  The data members of \<open>Downloader\<close>, each trailing underscore of the source written
  \<open>_m\<close>. \<open>workerThread_m\<close> is \<open>workerThread_.joinable()\<close>.
  Three fields are the world the engine acts on, not members of the class:
  \<open>calls\<close> lists every virtual call made on an observer so far, in order; \<open>files\<close> is the
  file system (path to content); \<open>requests\<close> lists the configured handles on which
  \<open>perform()\<close> was invoked.
\<close>

record downloader =
  observers_m :: "observer list"
  url_m :: string
  outputPath_m :: string
  downloadedBytes_m :: int
  totalBytes_m :: int
  state_m :: DownloadState
  pauseRequested_m :: bool
  cancelRequested_m :: bool
  workerThread_m :: bool
  calls :: "(observer \<times> event) list"
  files :: "string \<rightharpoonup> bytes"
  requests :: "curl_request list"

text \<open>The constructor: the default member initialisers of Downloader.h.\<close>

definition Downloader_new :: "(string \<rightharpoonup> bytes) \<Rightarrow> downloader" where
  "Downloader_new fs =
     \<lparr>observers_m = [], url_m = [], outputPath_m = [], downloadedBytes_m = 0, totalBytes_m = 0,
      state_m = IDLE, pauseRequested_m = False, cancelRequested_m = False,
      workerThread_m = False, calls = [], files = fs, requests = []\<rparr>"

text \<open>
  \<open>int64_t\<close> values are integers in \<open>[-2^63, 2^63)\<close>; \<open>i64\<close> is the two's-complement
  wrap-around of a result into that range: \<open>std::atomic<int64_t>::fetch_add\<close>, the conversions
  from \<open>size_t\<close> and \<open>std::streamoff\<close>, and the sum and difference in the progress callback
  (where the standard leaves an overflow undefined, the machine wraps).
\<close>

definition i64 :: "int \<Rightarrow> int" where
  "i64 x = signed_take_bit 63 x"

section \<open>Observer registry\<close>

text \<open>\<open>Downloader::addObserver\<close>: the null guard, then \<open>std::find\<close> and \<open>push_back\<close>.\<close>

definition addObserver :: "observer \<Rightarrow> downloader \<Rightarrow> downloader" where
  "addObserver obs d =
     (if obs = nullptr then d
      else if obs \<notin> set (observers_m d) then d\<lparr>observers_m := observers_m d @ [obs]\<rparr>
      else d)"

text \<open>\<open>Downloader::removeObserver\<close>: the erase-remove idiom drops every occurrence.\<close>

definition removeObserver :: "observer \<Rightarrow> downloader \<Rightarrow> downloader" where
  "removeObserver obs d = d\<lparr>observers_m := filter (\<lambda>x. x \<noteq> obs) (observers_m d)\<rparr>"

text \<open>The loop \<open>for (auto* obs : observers_) obs->onX(...)\<close> shared by the six
  \<open>notify\<close> helpers.\<close>

definition fan_out :: "event \<Rightarrow> downloader \<Rightarrow> downloader" where
  "fan_out ev d = d\<lparr>calls := calls d @ map (\<lambda>obs. (obs, ev)) (observers_m d)\<rparr>"

definition notifyProgress :: "int \<Rightarrow> int \<Rightarrow> percent \<Rightarrow> downloader \<Rightarrow> downloader" where
  "notifyProgress downloaded tot pct d = fan_out (OnProgress downloaded tot pct) d"

definition notifyCompleted :: "downloader \<Rightarrow> downloader" where
  "notifyCompleted d = fan_out OnCompleted d"

definition notifyError :: "string \<Rightarrow> downloader \<Rightarrow> downloader" where
  "notifyError message d = fan_out (OnError message) d"

definition notifyPaused :: "downloader \<Rightarrow> downloader" where
  "notifyPaused d = fan_out OnPaused d"

definition notifyResumed :: "downloader \<Rightarrow> downloader" where
  "notifyResumed d = fan_out OnResumed d"

definition notifyCancelled :: "downloader \<Rightarrow> downloader" where
  "notifyCancelled d = fan_out OnCancelled d"

text \<open>The events one observer has received, in order.\<close>

definition received :: "observer \<Rightarrow> downloader \<Rightarrow> event list" where
  "received obs d = map snd (filter (\<lambda>c. fst c = obs) (calls d))"

text \<open>A sequence of registry calls made by the client before or between attempts.\<close>

datatype registry_call = AddObserver observer | RemoveObserver observer

fun apply_registry_call :: "registry_call \<Rightarrow> downloader \<Rightarrow> downloader" where
  "apply_registry_call (AddObserver obs) d = addObserver obs d"
| "apply_registry_call (RemoveObserver obs) d = removeObserver obs d"

definition registry_calls :: "registry_call list \<Rightarrow> downloader \<Rightarrow> downloader" where
  "registry_calls cs d = fold apply_registry_call cs d"

section \<open>Control operations\<close>

text \<open>
  \<open>Downloader::startDownload\<close>. The join of a previous worker leaves the handle not
  joinable; the new \<open>std::thread\<close> makes it joinable again.
\<close>

definition startDownload :: "string \<Rightarrow> string \<Rightarrow> downloader \<Rightarrow> bool \<times> downloader" where
  "startDownload url outputPath d =
     (let current = state_m d in
      if current = DOWNLOADING \<or> current = PAUSED then (False, d)
      else
        let d1 = (if workerThread_m d then d\<lparr>workerThread_m := False\<rparr> else d);
            d2 = d1\<lparr>url_m := url, outputPath_m := outputPath\<rparr>;
            d3 = d2\<lparr>downloadedBytes_m := 0, totalBytes_m := 0,
                    pauseRequested_m := False, cancelRequested_m := False\<rparr>;
            d4 = d3\<lparr>state_m := DOWNLOADING\<rparr>
        in (True, d4\<lparr>workerThread_m := True\<rparr>))"

text \<open>\<open>pause\<close> and \<open>resume\<close>: the compare-and-swap on \<open>state_\<close> and the flag store that
  follows it, taken as one step. \<open>cancel\<close> stores both flags whatever the state.\<close>

definition pause :: "downloader \<Rightarrow> downloader" where
  "pause d =
     (if state_m d = DOWNLOADING then d\<lparr>state_m := PAUSED, pauseRequested_m := True\<rparr> else d)"

definition resume :: "downloader \<Rightarrow> downloader" where
  "resume d =
     (if state_m d = PAUSED then d\<lparr>state_m := DOWNLOADING, pauseRequested_m := False\<rparr> else d)"

definition cancel :: "downloader \<Rightarrow> downloader" where
  "cancel d = d\<lparr>cancelRequested_m := True, pauseRequested_m := False\<rparr>"

section \<open>The Transport and the schedule of an attempt\<close>

text \<open>
  \<open>std::to_string(long)\<close>: the decimal digits, with a minus sign for a negative value.
\<close>

definition digit_char :: "nat \<Rightarrow> char" where
  "digit_char n = ''0123456789'' ! n"

function to_string_nat :: "nat \<Rightarrow> string" where
  "to_string_nat n =
     (if n < 10 then [digit_char n] else to_string_nat (n div 10) @ [digit_char (n mod 10)])"
  by pat_completeness auto
termination
  by (relation "measure (\<lambda>n. n)") auto

declare to_string_nat.simps [simp del]

definition to_string :: "int \<Rightarrow> string" where
  "to_string i = (if i < 0 then CHR ''-'' # to_string_nat (nat (- i)) else to_string_nat (nat i))"

text \<open>
  An \<open>ICurlHandle\<close> is external to the engine. What the engine reads from it after
  \<open>perform()\<close>: the result it reports when no callback aborts the transfer, the HTTP
  response code and the last error text.
\<close>

record curl_handle =
  returnResult :: CurlResult
  getHttpResponseCode :: int
  getLastError :: string

text \<open>An exception as \<open>workerThread\<close> tells them apart: a \<open>std::exception\<close> with its
  \<open>what()\<close>, or anything else.\<close>

datatype exception = StdException string | OtherException

text \<open>What \<open>curlFactory_()\<close> does: it returns a handle, returns null, or throws
  (\<open>CurlHandle::CurlHandle\<close> throws \<open>std::runtime_error\<close>).\<close>

datatype factory_result = Handle curl_handle | NullHandle | FactoryThrows exception

text \<open>
  One attempt is driven by two parties: the control thread, calling \<open>pause\<close>, \<open>resume\<close>
  and \<open>cancel\<close>, and the Transport, invoking the two callbacks on the worker's stack. A
  schedule lists their actions in the order they take effect. \<open>Write data sink_ok\<close> is an
  invocation of the write callback with the chunk \<open>data\<close>, \<open>sink_ok\<close> telling whether
  \<open>outFile.write\<close> succeeds (\<open>!outFile.fail()\<close>); \<open>Progress dltotal dlnow\<close> is an invocation
  of the progress callback.
\<close>

datatype control = CallPause | CallResume | CallCancel

datatype callback = Write bytes bool | Progress int int

datatype action = Ctl control | Cb callback

fun control_call :: "control \<Rightarrow> downloader \<Rightarrow> downloader" where
  "control_call CallPause d = pause d"
| "control_call CallResume d = resume d"
| "control_call CallCancel d = cancel d"

text \<open>
  Where the worker is inside \<open>perform()\<close>: between callbacks, blocked in
  \<open>waitIfPaused\<close> inside the write callback (holding the chunk it was called with), or
  after a callback has told the Transport to abort.
\<close>

datatype phase = Transferring | Blocked bytes bool | Aborted

section \<open>The worker\<close>

text \<open>The tail of the write callback: \<open>outFile.write\<close>, the \<open>fail()\<close> check, the
  \<open>fetch_add\<close> and the returned byte count.\<close>

definition write_chunk :: "string \<Rightarrow> bytes \<Rightarrow> bool \<Rightarrow> downloader \<Rightarrow> nat \<times> downloader" where
  "write_chunk out data sink_ok d =
     (if \<not> sink_ok then (0, d)
      else (length data,
            d\<lparr>files := (files d)(out \<mapsto> (case files d out of None \<Rightarrow> data | Some old \<Rightarrow> old @ data)),
              downloadedBytes_m := i64 (downloadedBytes_m d + i64 (int (length data)))\<rparr>))"

text \<open>The Transport aborts when the write callback returns anything but the chunk's size
  (\<open>CURLE_WRITE_ERROR\<close>; \<open>written != toSend\<close> in the mock).\<close>

definition after_write :: "bytes \<Rightarrow> nat \<Rightarrow> phase" where
  "after_write data written = (if written = length data then Transferring else Aborted)"

text \<open>
  The write callback up to the point where it returns or blocks. With \<open>pauseRequested_\<close>
  set it calls \<open>waitIfPaused\<close>, which notifies \<open>onPaused\<close> and waits on the condition
  variable.
\<close>

definition writeCallback :: "string \<Rightarrow> bytes \<Rightarrow> bool \<Rightarrow> downloader \<Rightarrow> phase \<times> downloader" where
  "writeCallback out data sink_ok d =
     (if cancelRequested_m d then (after_write data 0, d)
      else if pauseRequested_m d then (Blocked data sink_ok, notifyPaused d)
      else let (written, d') = write_chunk out data sink_ok d in (after_write data written, d'))"

text \<open>
  The rest of \<open>waitIfPaused\<close>, evaluated after a control call while the worker is blocked:
  the wait predicate \<open>!pauseRequested_ || cancelRequested_\<close>; when it holds, \<open>false\<close> is
  returned on cancel (the callback then returns 0), else \<open>onResumed\<close> is notified and the
  callback goes on to write the chunk.
\<close>

definition waitIfPaused_wake :: "string \<Rightarrow> bytes \<Rightarrow> bool \<Rightarrow> downloader \<Rightarrow> phase \<times> downloader" where
  "waitIfPaused_wake out data sink_ok d =
     (if \<not> pauseRequested_m d \<or> cancelRequested_m d then
        (if cancelRequested_m d then (after_write data 0, d)
         else let (written, d') = write_chunk out data sink_ok (notifyResumed d)
              in (after_write data written, d'))
      else (Blocked data sink_ok, d))"

text \<open>The progress callback; it returns 1 to abort and 0 to continue.\<close>

definition progressCallback :: "int \<Rightarrow> int \<Rightarrow> downloader \<Rightarrow> int \<times> downloader" where
  "progressCallback dltotal dlnow d =
     (if cancelRequested_m d then (1, d)
      else
        let baseOffset = i64 (downloadedBytes_m d - dlnow);
            d1 = (if dltotal > 0 then d\<lparr>totalBytes_m := i64 (dltotal + baseOffset)\<rparr> else d);
            downloaded = downloadedBytes_m d1;
            tot = totalBytes_m d1;
            pct = (if tot > 0 then PercentOf downloaded tot else PercentUnknown)
        in (0, notifyProgress downloaded tot pct d1))"

text \<open>
  One action of the schedule. The Transport cannot invoke a callback while the worker is
  blocked inside one (\<open>None\<close>: the schedule is not a possible one), and invokes none after
  an abort.
\<close>

fun step :: "string \<Rightarrow> action \<Rightarrow> phase \<times> downloader \<Rightarrow> (phase \<times> downloader) option" where
  "step out (Ctl c) (Transferring, d) = Some (Transferring, control_call c d)"
| "step out (Ctl c) (Blocked data sink_ok, d) =
     Some (waitIfPaused_wake out data sink_ok (control_call c d))"
| "step out (Ctl c) (Aborted, d) = Some (Aborted, control_call c d)"
| "step out (Cb (Write data sink_ok)) (Transferring, d) = Some (writeCallback out data sink_ok d)"
| "step out (Cb (Progress dltotal dlnow)) (Transferring, d) =
     (let (r, d') = progressCallback dltotal dlnow d
      in Some (if r = 0 then Transferring else Aborted, d'))"
| "step out (Cb cb) (Blocked data sink_ok, d) = None"
| "step out (Cb cb) (Aborted, d) = Some (Aborted, d)"

fun run :: "string \<Rightarrow> action list \<Rightarrow> phase \<times> downloader \<Rightarrow> (phase \<times> downloader) option" where
  "run out [] s = Some s"
| "run out (a # sched) s = (case step out a s of None \<Rightarrow> None | Some s' \<Rightarrow> run out sched s')"

text \<open>
  \<open>curl->perform()\<close> under a schedule. It returns the handle's own result when the
  schedule is drained, \<open>ABORTED_BY_CALLBACK\<close> when a callback aborted, and does not return
  (\<open>None\<close>) when the worker is left blocked in \<open>waitIfPaused\<close> for ever.
\<close>

definition perform ::
  "curl_handle \<Rightarrow> string \<Rightarrow> action list \<Rightarrow> downloader \<Rightarrow> (CurlResult \<times> downloader) option" where
  "perform curl out sched d =
     (case run out sched (Transferring, d) of
        None \<Rightarrow> None
      | Some (Transferring, d') \<Rightarrow> Some (returnResult curl, d')
      | Some (Aborted, d') \<Rightarrow> Some (ABORTED_BY_CALLBACK, d')
      | Some (Blocked data sink_ok, d') \<Rightarrow> None)"

text \<open>Section (1) of \<open>doDownload\<close>: the size of the existing destination file, 0 when the
  \<open>ifstream\<close> cannot be opened.\<close>

definition resumeFrom_of :: "string \<Rightarrow> downloader \<Rightarrow> int" where
  "resumeFrom_of outputPath d =
     (case files d outputPath of None \<Rightarrow> 0 | Some existing \<Rightarrow> i64 (int (length existing)))"

text \<open>The state after \<open>downloadedBytes_.store(resumeFrom)\<close>.\<close>

definition seed_offset :: "downloader \<Rightarrow> downloader" where
  "seed_offset d = d\<lparr>downloadedBytes_m := resumeFrom_of (outputPath_m d) d\<rparr>"

text \<open>Opening the \<open>ofstream\<close>: \<open>std::ios::app\<close> keeps the content, \<open>std::ios::trunc\<close>
  empties the file.\<close>

definition open_output :: "string \<Rightarrow> int \<Rightarrow> downloader \<Rightarrow> downloader" where
  "open_output outputPath resumeFrom d =
     d\<lparr>files := (files d)(outputPath \<mapsto>
          (if resumeFrom > 0 then (case files d outputPath of None \<Rightarrow> [] | Some existing \<Rightarrow> existing)
           else []))\<rparr>"

text \<open>The handle as configured by section (2): the URL, and the resume offset only when it
  is positive.\<close>

definition configure :: "string \<Rightarrow> int \<Rightarrow> curl_request" where
  "configure url resumeFrom =
     \<lparr>req_url = url, req_resumeFrom = (if resumeFrom > 0 then Some resumeFrom else None)\<rparr>"

text \<open>
  How sections (1) to (5) of \<open>doDownload\<close> end: with an early \<open>return\<close>, with
  \<open>perform()\<close> having returned a result, or with an exception leaving the function.
\<close>

datatype worker_exit =
    Returned downloader
  | Performed curl_handle CurlResult downloader
  | Thrown exception downloader

definition doDownload_transfer ::
  "bool \<Rightarrow> factory_result \<Rightarrow> action list \<Rightarrow> downloader \<Rightarrow> worker_exit option" where
  "doDownload_transfer sink_opens factory sched d =
     (let outputPath = outputPath_m d;
          url = url_m d;
          resumeFrom = resumeFrom_of outputPath d;
          d1 = seed_offset d
      in if \<not> sink_opens then
           Some (Returned (notifyError (''Failed to open output file: '' @ outputPath)
                             (d1\<lparr>state_m := ERROR\<rparr>)))
         else
           let d2 = open_output outputPath resumeFrom d1 in
           (case factory of
              FactoryThrows e \<Rightarrow> Some (Thrown e d2)
            | NullHandle \<Rightarrow>
                Some (Returned (notifyError ''Failed to create curl handle'' (d2\<lparr>state_m := ERROR\<rparr>)))
            | Handle curl \<Rightarrow>
                let d3 = d2\<lparr>requests := requests d2 @ [configure url resumeFrom]\<rparr> in
                (case perform curl outputPath sched d3 of
                   None \<Rightarrow> None
                 | Some (result, d4) \<Rightarrow> Some (Performed curl result d4))))"

text \<open>Section (6) of \<open>doDownload\<close>: the outcome, decided from the flags, the state and the
  result of \<open>perform()\<close>, in the order of the source.\<close>

definition resolve :: "curl_handle \<Rightarrow> CurlResult \<Rightarrow> downloader \<Rightarrow> downloader" where
  "resolve curl result d =
     (if cancelRequested_m d then notifyCancelled (d\<lparr>state_m := CANCELLED\<rparr>)
      else if state_m d = PAUSED then notifyCancelled (d\<lparr>state_m := CANCELLED\<rparr>)
      else if result = OK then
        (let httpCode = getHttpResponseCode curl in
         if httpCode \<ge> 400 then
           notifyError (''HTTP error: '' @ to_string httpCode) (d\<lparr>state_m := ERROR\<rparr>)
         else
           let tot = totalBytes_m d;
               downloaded = downloadedBytes_m d;
               d1 = notifyProgress downloaded (if tot > 0 then tot else downloaded) Percent100 d
           in notifyCompleted (d1\<lparr>state_m := COMPLETED\<rparr>))
      else if result = ABORTED_BY_CALLBACK then
        notifyError (''Download aborted: '' @ getLastError curl) (d\<lparr>state_m := ERROR\<rparr>)
      else if result = NETWORK_ERROR then
        notifyError (''Network error: '' @ getLastError curl) (d\<lparr>state_m := ERROR\<rparr>)
      else if result = RANGE_NOT_SATISFIED then
        notifyError ''Server does not support resume (Range not satisfied)'' (d\<lparr>state_m := ERROR\<rparr>)
      else notifyError (''Download failed: '' @ getLastError curl) (d\<lparr>state_m := ERROR\<rparr>))"

text \<open>The message of each \<open>catch\<close> block of \<open>workerThread\<close>.\<close>

fun catch_message :: "exception \<Rightarrow> string" where
  "catch_message (StdException what) = ''Unexpected exception: '' @ what"
| "catch_message OtherException = ''Unknown exception in worker thread''"

text \<open>\<open>Downloader::workerThread\<close>: \<open>doDownload\<close> inside the \<open>try\<close> block, an exception
  turned into \<open>ERROR\<close> and \<open>onError\<close>. \<open>None\<close>: the worker never exits.\<close>

definition workerThread ::
  "bool \<Rightarrow> factory_result \<Rightarrow> action list \<Rightarrow> downloader \<Rightarrow> downloader option" where
  "workerThread sink_opens factory sched d =
     (case doDownload_transfer sink_opens factory sched d of
        None \<Rightarrow> None
      | Some (Returned d') \<Rightarrow> Some d'
      | Some (Performed curl result d') \<Rightarrow> Some (resolve curl result d')
      | Some (Thrown e d') \<Rightarrow> Some (notifyError (catch_message e) (d'\<lparr>state_m := ERROR\<rparr>)))"

text \<open>One attempt from the client's call: \<open>startDownload\<close> and, when it launched a
  worker, that worker's run. The pair is \<open>startDownload\<close>'s return value and the final
  state.\<close>

definition attempt ::
  "string \<Rightarrow> string \<Rightarrow> bool \<Rightarrow> factory_result \<Rightarrow> action list \<Rightarrow> downloader \<Rightarrow>
   (bool \<times> downloader) option" where
  "attempt url outputPath sink_opens factory sched d =
     (case startDownload url outputPath d of
        (False, d') \<Rightarrow> Some (False, d')
      | (True, d') \<Rightarrow> map_option (Pair True) (workerThread sink_opens factory sched d'))"

section \<open>The events of one attempt\<close>

text \<open>The three terminal notifications of an attempt, against progress, paused and
  resumed.\<close>

fun terminal :: "event \<Rightarrow> bool" where
  "terminal OnCompleted = True"
| "terminal (OnError message) = True"
| "terminal OnCancelled = True"
| "terminal (OnProgress downloaded tot pct) = False"
| "terminal OnPaused = False"
| "terminal OnResumed = False"

definition terminal_calls :: "downloader \<Rightarrow> (observer \<times> event) list" where
  "terminal_calls d = filter (\<lambda>c. terminal (snd c)) (calls d)"

text \<open>The engine as \<open>doDownload\<close> hands it to \<open>perform()\<close>: the counter seeded, the sink
  opened and the handle configured.\<close>

definition prepared :: "downloader \<Rightarrow> downloader" where
  "prepared d =
     (let resumeFrom = resumeFrom_of (outputPath_m d) d;
          d2 = open_output (outputPath_m d) resumeFrom (seed_offset d)
      in d2\<lparr>requests := requests d2 @ [configure (url_m d) resumeFrom]\<rparr>)"

section \<open>Counters along an attempt\<close>

text \<open>The byte size of the destination file as the attempt finds it, 0 when it is absent.\<close>

definition existing_size :: "downloader \<Rightarrow> nat" where
  "existing_size d = (case files d (outputPath_m d) of None \<Rightarrow> 0 | Some existing \<Rightarrow> length existing)"

text \<open>The bytes the Transport hands to the write callback over a schedule, and the bytes a
  blocked callback is holding.\<close>

fun delivered_bytes :: "action list \<Rightarrow> nat" where
  "delivered_bytes [] = 0"
| "delivered_bytes (Cb (Write data sink_ok) # sched) = length data + delivered_bytes sched"
| "delivered_bytes (a # sched) = delivered_bytes sched"

fun pending_bytes :: "phase \<Rightarrow> nat" where
  "pending_bytes (Blocked data sink_ok) = length data"
| "pending_bytes ph = 0"

text \<open>A call is acceptable when it is not a progress call or reports at least \<open>lo\<close> bytes
  downloaded. \<open>grows P d d'\<close>: the calls of \<open>d'\<close> are those of \<open>d\<close> followed by calls that all
  satisfy \<open>P\<close>.\<close>

fun progress_at_least :: "int \<Rightarrow> observer \<times> event \<Rightarrow> bool" where
  "progress_at_least lo (obs, OnProgress downloaded tot pct) = (lo \<le> downloaded)"
| "progress_at_least lo (obs, ev) = True"

definition new_calls :: "downloader \<Rightarrow> downloader \<Rightarrow> (observer \<times> event) list" where
  "new_calls d d' = drop (length (calls d)) (calls d')"

definition grows :: "(observer \<times> event \<Rightarrow> bool) \<Rightarrow> downloader \<Rightarrow> downloader \<Rightarrow> bool" where
  "grows P d d' \<longleftrightarrow> take (length (calls d)) (calls d') = calls d \<and> list_all P (new_calls d d')"


text \<open>The states of the engine during \<open>perform()\<close>: before the first action and after each
  one.\<close>

fun trajectory :: "string \<Rightarrow> action list \<Rightarrow> phase \<times> downloader \<Rightarrow> downloader list" where
  "trajectory out [] s = [snd s]"
| "trajectory out (a # sched) s =
     snd s # (case step out a s of None \<Rightarrow> [] | Some s' \<Rightarrow> trajectory out sched s')"

text \<open>\<open>bytesTransferred <= totalBytes\<close> whenever \<open>totalBytes > 0\<close>.\<close>

definition within_total :: "downloader \<Rightarrow> bool" where
  "within_total d \<longleftrightarrow> totalBytes_m d \<le> 0 \<or> downloadedBytes_m d \<le> totalBytes_m d"

text \<open>
  An accurate Transport, read off the schedule. The pair \<open>(n, T)\<close> is the number of bytes
  handed to the write callback so far in this request and the last positive total
  reported, if any. A progress report is accurate when \<open>dlnow\<close> is \<open>n\<close> and a positive
  \<open>dltotal\<close> is an \<open>int64_t\<close> not below \<open>n\<close>; a chunk is within the report when it does not
  take \<open>n\<close> beyond the last positive total.
\<close>

fun report_ok :: "action \<Rightarrow> nat \<times> int option \<Rightarrow> bool" where
  "report_ok (Ctl c) (n, T) = True"
| "report_ok (Cb (Progress dltotal dlnow)) (n, T) =
     (dlnow = int n \<and> dltotal < 2 ^ 63 \<and> (dltotal \<le> 0 \<or> int n \<le> dltotal))"
| "report_ok (Cb (Write data sink_ok)) (n, T) =
     (case T of None \<Rightarrow> True | Some t \<Rightarrow> int n + int (length data) \<le> t)"

fun advance :: "action \<Rightarrow> nat \<times> int option \<Rightarrow> nat \<times> int option" where
  "advance (Ctl c) (n, T) = (n, T)"
| "advance (Cb (Progress dltotal dlnow)) (n, T) = (n, if dltotal > 0 then Some dltotal else T)"
| "advance (Cb (Write data sink_ok)) (n, T) = (n + length data, T)"

fun accurate :: "nat \<times> int option \<Rightarrow> action list \<Rightarrow> bool" where
  "accurate nt [] = True"
| "accurate nt (a # sched) = (report_ok a nt \<and> accurate (advance a nt) sched)"

text \<open>
  The invariant of an accurate run with resume offset \<open>r\<close>: the total the engine holds is
  0 before any positive report and \<open>r + t\<close> (as an \<open>int64_t\<close>) after a report \<open>t\<close>; the counter
  is \<open>r + n\<close>, less the chunk a blocked callback has not written yet.
\<close>

definition total_known :: "int \<Rightarrow> nat \<times> int option \<Rightarrow> downloader \<Rightarrow> bool" where
  "total_known r nt d =
     (case snd nt of
        None \<Rightarrow> totalBytes_m d = 0
      | Some t \<Rightarrow> totalBytes_m d = i64 (r + t) \<and> int (fst nt) \<le> t \<and> t < 2 ^ 63)"

fun in_step :: "int \<Rightarrow> nat \<times> int option \<Rightarrow> phase \<times> downloader \<Rightarrow> bool" where
  "in_step r nt (Transferring, d) =
     (downloadedBytes_m d = r + int (fst nt) \<and> total_known r nt d)"
| "in_step r nt (Blocked data sink_ok, d) =
     (downloadedBytes_m d + int (length data) = r + int (fst nt) \<and> length data \<le> fst nt \<and>
      total_known r nt d)"
| "in_step r nt (Aborted, d) = within_total d"

section \<open>The client's calls\<close>

text \<open>
  The life of an engine as its client drives it: registry calls, control calls outside an
  attempt, and whole attempts (\<open>startDownload\<close> and the worker it launches, run under a
  schedule), one after the other. \<open>None\<close>: an attempt never ends. The registry is not
  changed while an attempt runs.
\<close>

datatype client_call =
    CallRegistry registry_call
  | CallControl control
  | CallAttempt string string bool factory_result "action list"

fun apply_client_call :: "client_call \<Rightarrow> downloader \<Rightarrow> downloader option" where
  "apply_client_call (CallRegistry rc) d = Some (apply_registry_call rc d)"
| "apply_client_call (CallControl c) d = Some (control_call c d)"
| "apply_client_call (CallAttempt url outputPath sink_opens factory sched) d =
     map_option snd (attempt url outputPath sink_opens factory sched d)"

fun client_calls :: "client_call list \<Rightarrow> downloader \<Rightarrow> downloader option" where
  "client_calls [] d = Some d"
| "client_calls (c # cs) d = (case apply_client_call c d of None \<Rightarrow> None | Some d' \<Rightarrow> client_calls cs d')"

text \<open>No \<open>nullptr\<close> in the registry and no call made through \<open>nullptr\<close>.\<close>

definition null_free :: "downloader \<Rightarrow> bool" where
  "null_free d \<longleftrightarrow> nullptr \<notin> set (observers_m d) \<and> nullptr \<notin> fst ` set (calls d)"

section \<open>Example engines, handles and schedules\<close>

text \<open>An engine with one observer, started on an absent destination file; three handles
  (the \<open>MockConfig\<close> of the tests: 200, 404 and a network error); the schedule the mock
  handle produces for 4096 bytes in chunks of 1024.\<close>

definition example_engine :: downloader where
  "example_engine = addObserver 1 (Downloader_new Map.empty)"

definition started_engine :: downloader where
  "started_engine = snd (startDownload ''http://example.com/file.bin'' ''out.bin'' example_engine)"

definition handle_200 :: curl_handle where
  "handle_200 = \<lparr>returnResult = OK, getHttpResponseCode = 200, getLastError = ''Mock error''\<rparr>"

definition handle_404 :: curl_handle where
  "handle_404 = \<lparr>returnResult = OK, getHttpResponseCode = 404, getLastError = ''Mock error''\<rparr>"

definition handle_network_error :: curl_handle where
  "handle_network_error =
     \<lparr>returnResult = NETWORK_ERROR, getHttpResponseCode = 0, getLastError = ''Connection refused''\<rparr>"

definition zeros :: "nat \<Rightarrow> bytes" where
  "zeros n = replicate n (CHR 0x00)"

definition mock_4096 :: "action list" where
  "mock_4096 =
     [Cb (Progress 4096 0), Cb (Write (zeros 1024) True),
      Cb (Progress 4096 1024), Cb (Write (zeros 1024) True),
      Cb (Progress 4096 2048), Cb (Write (zeros 1024) True),
      Cb (Progress 4096 3072), Cb (Write (zeros 1024) True),
      Cb (Progress 4096 4096)]"

text \<open>A resumed attempt as in the test \<open>Resume_SetsRangeHeader_WhenFileExists\<close>: a
  destination of 1024 bytes, a mock handle of 2048 bytes and code 206. Its last progress
  report gives the full size as \<open>dltotal\<close>.\<close>

definition handle_206 :: curl_handle where
  "handle_206 = \<lparr>returnResult = OK, getHttpResponseCode = 206, getLastError = ''Mock error''\<rparr>"

definition resumed_engine :: downloader where
  "resumed_engine =
     snd (startDownload ''http://example.com/file.bin'' ''out.bin''
            (addObserver 1 (Downloader_new [''out.bin'' \<mapsto> zeros 1024])))"

definition mock_resume_2048 :: "action list" where
  "mock_resume_2048 =
     [Cb (Progress 1024 0), Cb (Write (zeros 1024) True), Cb (Progress 2048 1024)]"

text \<open>A Transport that reports a total of 10 bytes, then an unknown total (0), and delivers
  20 bytes.\<close>

definition stale_total_schedule :: "action list" where
  "stale_total_schedule =
     [Cb (Progress 10 0), Cb (Progress 0 0), Cb (Write ''01234567890123456789'' True),
      Cb (Progress 0 20)]"

text \<open>A transfer of two bytes in one chunk.\<close>

definition small_schedule :: "action list" where
  "small_schedule = [Cb (Progress 2 0), Cb (Write ''ok'' True), Cb (Progress 2 2)]"

section \<open>Registry lemmas\<close>

lemma observers_fan_out [simp]: "observers_m (fan_out ev d) = observers_m d"
  by (simp add: fan_out_def)

lemma distinct_addObserver: "distinct (observers_m d) \<Longrightarrow> distinct (observers_m (addObserver obs d))"
  by (simp add: addObserver_def)

lemma distinct_removeObserver:
  "distinct (observers_m d) \<Longrightarrow> distinct (observers_m (removeObserver obs d))"
  by (simp add: removeObserver_def)

lemma distinct_registry_call:
  "distinct (observers_m d) \<Longrightarrow> distinct (observers_m (apply_registry_call c d))"
  by (cases c) (simp_all add: distinct_addObserver distinct_removeObserver)

lemma distinct_registry_calls:
  "distinct (observers_m d) \<Longrightarrow> distinct (observers_m (registry_calls cs d))"
  unfolding registry_calls_def
  by (induction cs arbitrary: d) (simp_all add: distinct_registry_call)

lemma distinct_new_registry: "distinct (observers_m (registry_calls cs (Downloader_new fs)))"
  by (rule distinct_registry_calls) (simp add: Downloader_new_def)

lemma addObserver_twice: "addObserver obs (addObserver obs d) = addObserver obs d"
  by (simp add: addObserver_def)

lemma addObserver_repeat: "(addObserver obs ^^ Suc n) d = addObserver obs d"
proof (induction n)
  case 0
  show ?case by simp
next
  case (Suc n)
  have "(addObserver obs ^^ Suc (Suc n)) d = addObserver obs ((addObserver obs ^^ Suc n) d)"
    by simp
  also have "\<dots> = addObserver obs (addObserver obs d)"
    by (simp only: Suc.IH)
  finally show ?case
    by (simp only: addObserver_twice)
qed

lemma member_addObserver: "obs \<noteq> nullptr \<Longrightarrow> obs \<in> set (observers_m (addObserver obs d))"
  by (simp add: addObserver_def)

lemma filter_fst_fan:
  "filter (\<lambda>c. fst c = obs) (map (\<lambda>x. (x, ev)) xs) = map (\<lambda>x. (x, ev)) (filter (\<lambda>x. x = obs) xs)"
  by (induction xs) simp_all

lemma filter_eq_singleton: "distinct xs \<Longrightarrow> x \<in> set xs \<Longrightarrow> filter (\<lambda>y. y = x) xs = [x]"
  by (induction xs) (auto simp: filter_empty_conv)

lemma filter_eq_absent: "x \<notin> set xs \<Longrightarrow> filter (\<lambda>y. y = x) xs = []"
  by (auto simp: filter_empty_conv)

lemma received_fan_out_member:
  "distinct (observers_m d) \<Longrightarrow> obs \<in> set (observers_m d) \<Longrightarrow>
   received obs (fan_out ev d) = received obs d @ [ev]"
  by (simp add: received_def fan_out_def filter_fst_fan filter_eq_singleton)

lemma received_fan_out_absent:
  "obs \<notin> set (observers_m d) \<Longrightarrow> received obs (fan_out ev d) = received obs d"
  by (simp add: received_def fan_out_def filter_fst_fan filter_eq_absent)

lemma removeObserver_absent: "obs \<notin> set (observers_m d) \<Longrightarrow> removeObserver obs d = d"
proof -
  assume "obs \<notin> set (observers_m d)"
  then have "filter (\<lambda>x. x \<noteq> obs) (observers_m d) = observers_m d"
    by (auto simp: filter_id_conv)
  then show ?thesis
    by (simp add: removeObserver_def)
qed

section \<open>Arithmetic of the 64-bit counters\<close>

lemma i64_id: "- (2 ^ 63) \<le> x \<Longrightarrow> x < 2 ^ 63 \<Longrightarrow> i64 x = x"
  by (simp add: i64_def signed_take_bit_int_eq_self)

lemma i64_add_right: "i64 (a + i64 b) = i64 (a + b)"
  unfolding i64_def
  by (metis signed_take_bit_add signed_take_bit_signed_take_bit min.idem)

text \<open>
  Claim C3. \<open>startDownload\<close> returns \<open>false\<close> when the state is \<open>DOWNLOADING\<close> or
  \<open>PAUSED\<close> and leaves the engine as it was (no worker runs). From every other state it
  stores the URL and the output path, resets both counters to 0 and both flags to
  \<open>false\<close>, sets the state to \<open>DOWNLOADING\<close>, launches the worker and returns \<open>true\<close>; the
  registry, the file system and the record of past calls are left alone.
\<close>

theorem startDownload_contract:
  "(state_m d = DOWNLOADING \<or> state_m d = PAUSED \<longrightarrow>
      startDownload url outputPath d = (False, d) \<and>
      attempt url outputPath sink_opens factory sched d = Some (False, d)) \<and>
   (state_m d \<noteq> DOWNLOADING \<and> state_m d \<noteq> PAUSED \<longrightarrow>
      startDownload url outputPath d =
        (True, d\<lparr>url_m := url, outputPath_m := outputPath, downloadedBytes_m := 0,
                 totalBytes_m := 0, state_m := DOWNLOADING, pauseRequested_m := False,
                 cancelRequested_m := False, workerThread_m := True\<rparr>) \<and>
      attempt url outputPath sink_opens factory sched d =
        map_option (Pair True)
          (workerThread sink_opens factory sched (snd (startDownload url outputPath d))))"
  by (simp add: startDownload_def attempt_def Let_def)

theorem startDownload_contract_witness:
  "state_m (Downloader_new Map.empty) \<noteq> DOWNLOADING \<and>
   state_m (Downloader_new Map.empty) \<noteq> PAUSED \<and>
   fst (startDownload ''http://example.com/file.bin'' ''out.bin'' (Downloader_new Map.empty)) \<and>
   state_m (snd (startDownload ''http://example.com/file.bin'' ''out.bin'' (Downloader_new Map.empty))) = DOWNLOADING \<and>
   startDownload ''http://example.com/file2.bin'' ''out.bin''
     (snd (startDownload ''http://example.com/file.bin'' ''out.bin'' (Downloader_new Map.empty))) =
   (False, snd (startDownload ''http://example.com/file.bin'' ''out.bin'' (Downloader_new Map.empty)))"
  using startDownload_contract [of "Downloader_new Map.empty" "''http://example.com/file.bin''" "''out.bin''"]
    startDownload_contract [of "snd (startDownload ''http://example.com/file.bin'' ''out.bin'' (Downloader_new Map.empty))"
       "''http://example.com/file2.bin''" "''out.bin''"]
  by (simp add: Downloader_new_def)

lemma received_addObserver [simp]: "received obs (addObserver x d) = received obs d"
  by (simp add: received_def addObserver_def)

lemma calls_registry_calls [simp]: "calls (registry_calls cs d) = calls d"
  unfolding registry_calls_def
proof (induction cs arbitrary: d)
  case Nil
  show ?case by simp
next
  case (Cons c cs)
  show ?case
    by (cases c) (simp_all add: Cons.IH addObserver_def removeObserver_def)
qed

text \<open>
  Claim C6. In a progress callback with \<open>cancelRequested_\<close> unset and \<open>dltotal > 0\<close>, the
  worker stores \<open>dltotal + (downloadedBytes_ - dlnow)\<close> as \<open>totalBytes_\<close>, continues (returns 0)
  and delivers one \<open>onProgress\<close> to every observer with the downloaded count, the new
  total and the percentage of the two. When \<open>dlnow\<close> is what was delivered since the resume
  offset, the new total is the resume offset plus \<open>dltotal\<close>.
\<close>

theorem progressCallback_recomputes_total:
  assumes "\<not> cancelRequested_m d" and "dltotal > 0"
  shows "fst (progressCallback dltotal dlnow d) = 0 \<and>
         totalBytes_m (snd (progressCallback dltotal dlnow d)) =
           i64 (dltotal + i64 (downloadedBytes_m d - dlnow)) \<and>
         downloadedBytes_m (snd (progressCallback dltotal dlnow d)) = downloadedBytes_m d \<and>
         calls (snd (progressCallback dltotal dlnow d)) =
           calls d @ map (\<lambda>obs. (obs,
             OnProgress (downloadedBytes_m d) (i64 (dltotal + i64 (downloadedBytes_m d - dlnow)))
               (if i64 (dltotal + i64 (downloadedBytes_m d - dlnow)) > 0
                then PercentOf (downloadedBytes_m d) (i64 (dltotal + i64 (downloadedBytes_m d - dlnow)))
                else PercentUnknown))) (observers_m d) \<and>
         (\<forall>resumeFrom. downloadedBytes_m d = resumeFrom + dlnow \<and>
             - (2 ^ 63) \<le> resumeFrom + dltotal \<and> resumeFrom + dltotal < 2 ^ 63 \<longrightarrow>
             totalBytes_m (snd (progressCallback dltotal dlnow d)) = resumeFrom + dltotal)"
proof -
  have tot: "totalBytes_m (snd (progressCallback dltotal dlnow d)) =
           i64 (dltotal + i64 (downloadedBytes_m d - dlnow))"
    using assms by (simp add: progressCallback_def Let_def notifyProgress_def fan_out_def)
  have rest: "fst (progressCallback dltotal dlnow d) = 0 \<and>
         downloadedBytes_m (snd (progressCallback dltotal dlnow d)) = downloadedBytes_m d \<and>
         calls (snd (progressCallback dltotal dlnow d)) =
           calls d @ map (\<lambda>obs. (obs,
             OnProgress (downloadedBytes_m d) (i64 (dltotal + i64 (downloadedBytes_m d - dlnow)))
               (if i64 (dltotal + i64 (downloadedBytes_m d - dlnow)) > 0
                then PercentOf (downloadedBytes_m d) (i64 (dltotal + i64 (downloadedBytes_m d - dlnow)))
                else PercentUnknown))) (observers_m d)"
    using assms by (simp add: progressCallback_def Let_def notifyProgress_def fan_out_def)
  have acc: "totalBytes_m (snd (progressCallback dltotal dlnow d)) = r + dltotal"
    if "downloadedBytes_m d = r + dlnow \<and> - (2 ^ 63) \<le> r + dltotal \<and> r + dltotal < 2 ^ 63" for r
  proof -
    have "i64 (dltotal + i64 (downloadedBytes_m d - dlnow)) = i64 (dltotal + r)"
      using that by (simp add: i64_add_right)
    also have "\<dots> = r + dltotal"
      using that by (simp add: i64_id add.commute)
    finally show ?thesis
      by (simp only: tot)
  qed
  from tot rest acc show ?thesis
    by blast
qed

theorem progressCallback_recomputes_total_witness:
  "\<not> cancelRequested_m ((addObserver 1 (Downloader_new Map.empty))\<lparr>downloadedBytes_m := 1536\<rparr>) \<and>
   (1024::int) > 0 \<and>
   totalBytes_m (snd (progressCallback 1024 512
      ((addObserver 1 (Downloader_new Map.empty))\<lparr>downloadedBytes_m := 1536\<rparr>))) = 2048 \<and>
   calls (snd (progressCallback 1024 512
      ((addObserver 1 (Downloader_new Map.empty))\<lparr>downloadedBytes_m := 1536\<rparr>))) =
     [(1, OnProgress 1536 2048 (PercentOf 1536 2048))]"
proof -
  let ?d = "(addObserver 1 (Downloader_new Map.empty))\<lparr>downloadedBytes_m := 1536\<rparr>"
  have nc: "\<not> cancelRequested_m ?d"
    by (simp add: addObserver_def Downloader_new_def nullptr_def)
  have pos: "(1024::int) > 0"
    by simp
  have obs: "observers_m ?d = [1]" and dl: "downloadedBytes_m ?d = 1536" and cs: "calls ?d = []"
    by (simp_all add: addObserver_def Downloader_new_def nullptr_def)
  have v: "i64 (1024 + i64 (1536 - 512)) = 2048"
    by (simp add: i64_id)
  from progressCallback_recomputes_total [OF nc pos, of 512] nc pos show ?thesis
    by (simp only: obs dl cs v) simp
qed

section \<open>What the transfer leaves untouched\<close>




lemma terminal_calls_fan_out:
  "terminal_calls (fan_out ev d) =
     terminal_calls d @ (if terminal ev then map (\<lambda>obs. (obs, ev)) (observers_m d) else [])"
  by (simp add: terminal_calls_def fan_out_def filter_map o_def)

lemma control_call_quiet [simp]:
  "observers_m (control_call c d) = observers_m d"
  "calls (control_call c d) = calls d"
  by (cases c; simp add: pause_def resume_def cancel_def)+

lemma write_chunk_quiet [simp]:
  "observers_m (snd (write_chunk out data sink_ok d)) = observers_m d"
  "calls (snd (write_chunk out data sink_ok d)) = calls d"
  by (simp_all add: write_chunk_def)

lemma terminal_calls_control_call [simp]: "terminal_calls (control_call c d) = terminal_calls d"
  by (simp add: terminal_calls_def)

lemma terminal_calls_write_chunk [simp]:
  "terminal_calls (snd (write_chunk out data sink_ok d)) = terminal_calls d"
  by (simp add: terminal_calls_def)

lemma terminal_calls_totalBytes [simp]: "terminal_calls (d\<lparr>totalBytes_m := t\<rparr>) = terminal_calls d"
  by (simp add: terminal_calls_def)

lemma terminal_calls_state [simp]: "terminal_calls (d\<lparr>state_m := t\<rparr>) = terminal_calls d"
  by (simp add: terminal_calls_def)

lemma writeCallback_quiet:
  "observers_m (snd (writeCallback out data sink_ok d)) = observers_m d"
  "terminal_calls (snd (writeCallback out data sink_ok d)) = terminal_calls d"
  by (simp_all add: writeCallback_def notifyPaused_def terminal_calls_fan_out
      case_prod_beta)

lemma waitIfPaused_wake_quiet:
  "observers_m (snd (waitIfPaused_wake out data sink_ok d)) = observers_m d"
  "terminal_calls (snd (waitIfPaused_wake out data sink_ok d)) = terminal_calls d"
  by (simp_all add: waitIfPaused_wake_def notifyResumed_def terminal_calls_fan_out
      case_prod_beta)

lemma progressCallback_quiet:
  "observers_m (snd (progressCallback dltotal dlnow d)) = observers_m d"
  "terminal_calls (snd (progressCallback dltotal dlnow d)) = terminal_calls d"
  by (simp_all add: progressCallback_def Let_def notifyProgress_def terminal_calls_fan_out)

text \<open>Every step is a control call or the run of one callback.\<close>

lemma step_cases:
  assumes "step out a (ph, d) = Some (ph', d')"
  obtains
    (ctl) c where "a = Ctl c" "ph \<noteq> Aborted \<longrightarrow> ph = Transferring" "ph' = ph" "d' = control_call c d"
  | (wake) c data sink_ok where "a = Ctl c" "ph = Blocked data sink_ok"
      "(ph', d') = waitIfPaused_wake out data sink_ok (control_call c d)"
  | (wr) data sink_ok where "a = Cb (Write data sink_ok)" "ph = Transferring"
      "(ph', d') = writeCallback out data sink_ok d"
  | (prog) dltotal dlnow where "a = Cb (Progress dltotal dlnow)" "ph = Transferring"
      "d' = snd (progressCallback dltotal dlnow d)"
      "ph' = (if fst (progressCallback dltotal dlnow d) = 0 then Transferring else Aborted)"
  | (dropped) cb where "a = Cb cb" "ph = Aborted" "ph' = Aborted" "d' = d"
proof (cases a)
  case (Ctl c)
  show ?thesis
  proof (cases ph)
    case Transferring
    with Ctl assms show ?thesis by (intro ctl [of c]) simp_all
  next
    case (Blocked data sink_ok)
    with Ctl assms show ?thesis by (intro wake [of c data sink_ok]) simp_all
  next
    case Aborted
    with Ctl assms show ?thesis by (intro ctl [of c]) simp_all
  qed
next
  case (Cb cb)
  show ?thesis
  proof (cases ph)
    case Transferring
    show ?thesis
    proof (cases cb)
      case (Write data sink_ok)
      with Cb Transferring assms show ?thesis by (intro wr [of data sink_ok]) simp_all
    next
      case (Progress dltotal dlnow)
      with Cb Transferring assms show ?thesis
        by (intro prog [of dltotal dlnow]) (simp_all add: case_prod_beta)
    qed
  next
    case (Blocked data sink_ok)
    with Cb assms show ?thesis by simp
  next
    case Aborted
    with Cb assms show ?thesis by (intro dropped [of cb]) simp_all
  qed
qed

lemma step_quiet:
  assumes "step out a (ph, d) = Some (ph', d')"
  shows "observers_m d' = observers_m d \<and> terminal_calls d' = terminal_calls d"
  using assms
proof (cases rule: step_cases)
  case (ctl c)
  then show ?thesis by simp
next
  case (wake c data sink_ok)
  then have "d' = snd (waitIfPaused_wake out data sink_ok (control_call c d))"
    by (metis snd_conv)
  then show ?thesis
    by (simp add: waitIfPaused_wake_quiet)
next
  case (wr data sink_ok)
  then have "d' = snd (writeCallback out data sink_ok d)"
    by (metis snd_conv)
  then show ?thesis by (simp add: writeCallback_quiet)
next
  case (prog dltotal dlnow)
  then show ?thesis by (simp add: progressCallback_quiet)
next
  case (dropped cb)
  then show ?thesis by simp
qed

lemma run_quiet:
  "run out sched s = Some s' \<Longrightarrow>
   observers_m (snd s') = observers_m (snd s) \<and> terminal_calls (snd s') = terminal_calls (snd s)"
proof (induction sched arbitrary: s)
  case Nil
  then show ?case by simp
next
  case (Cons a sched)
  from Cons.prems obtain s1 where s1: "step out a s = Some s1" and r: "run out sched s1 = Some s'"
    by (auto split: option.splits)
  from s1 have "observers_m (snd s1) = observers_m (snd s) \<and> terminal_calls (snd s1) = terminal_calls (snd s)"
    using step_quiet [of out a "fst s" "snd s" "fst s1" "snd s1"] by simp
  with Cons.IH [OF r] show ?case by simp
qed

lemma perform_Some:
  assumes "perform curl out sched d = Some (result, d1)"
  shows "(run out sched (Transferring, d) = Some (Transferring, d1) \<and> result = returnResult curl) \<or>
         (run out sched (Transferring, d) = Some (Aborted, d1) \<and> result = ABORTED_BY_CALLBACK)"
proof (cases "run out sched (Transferring, d)")
  case None
  with assms show ?thesis by (simp add: perform_def)
next
  case (Some s)
  obtain ph d' where s: "s = (ph, d')" by (cases s)
  show ?thesis
  proof (cases ph)
    case Transferring
    with Some s assms show ?thesis by (simp add: perform_def)
  next
    case (Blocked data sink_ok)
    with Some s assms show ?thesis by (simp add: perform_def)
  next
    case Aborted
    with Some s assms show ?thesis by (simp add: perform_def)
  qed
qed

lemma perform_quiet:
  assumes "perform curl out sched d = Some (result, d1)"
  shows "observers_m d1 = observers_m d \<and> terminal_calls d1 = terminal_calls d"
proof -
  from perform_Some [OF assms] obtain ph where "run out sched (Transferring, d) = Some (ph, d1)"
    by blast
  from run_quiet [OF this] show ?thesis by simp
qed

lemma prepared_quiet [simp]:
  "observers_m (prepared d) = observers_m d" "calls (prepared d) = calls d"
  "outputPath_m (prepared d) = outputPath_m d" "terminal_calls (prepared d) = terminal_calls d"
  by (simp_all add: prepared_def Let_def open_output_def seed_offset_def terminal_calls_def)

lemma doDownload_transfer_Handle:
  "doDownload_transfer True (Handle curl) sched d =
     (case perform curl (outputPath_m d) sched (prepared d) of
        None \<Rightarrow> None | Some (result, d4) \<Rightarrow> Some (Performed curl result d4))"
  by (simp add: doDownload_transfer_def prepared_def Let_def)

lemma doDownload_transfer_Performed:
  assumes "doDownload_transfer sink_opens factory sched d = Some (Performed curl result d1)"
  shows "sink_opens \<and> factory = Handle curl \<and>
         perform curl (outputPath_m d) sched (prepared d) = Some (result, d1)"
proof -
  have so: sink_opens
    using assms by (cases sink_opens) (simp_all add: doDownload_transfer_def Let_def)
  have fac: "factory = Handle curl \<and> perform curl (outputPath_m d) sched (prepared d) = Some (result, d1)"
  proof (cases factory)
    case (Handle c)
    with so assms show ?thesis
      by (cases "perform c (outputPath_m d) sched (prepared d)")
        (auto simp: doDownload_transfer_Handle)
  next
    case NullHandle
    with so assms show ?thesis by (simp add: doDownload_transfer_def Let_def)
  next
    case (FactoryThrows what)
    with so assms show ?thesis by (simp add: doDownload_transfer_def Let_def)
  qed
  with so show ?thesis by simp
qed

lemma transfer_quiet:
  assumes "doDownload_transfer sink_opens factory sched d = Some (Performed curl result d1)"
  shows "observers_m d1 = observers_m d \<and> terminal_calls d1 = terminal_calls d"
proof -
  from doDownload_transfer_Performed [OF assms]
  have "perform curl (outputPath_m d) sched (prepared d) = Some (result, d1)" by simp
  from perform_quiet [OF this] show ?thesis
    by simp
qed

lemma workerThread_Performed:
  "doDownload_transfer sink_opens factory sched d = Some (Performed curl result d1) \<Longrightarrow>
   workerThread sink_opens factory sched d = Some (resolve curl result d1)"
  by (simp add: workerThread_def)


lemma started_engine_eq:
  "started_engine =
     \<lparr>observers_m = [1], url_m = ''http://example.com/file.bin'', outputPath_m = ''out.bin'',
      downloadedBytes_m = 0, totalBytes_m = 0, state_m = DOWNLOADING, pauseRequested_m = False,
      cancelRequested_m = False, workerThread_m = True, calls = [], files = Map.empty,
      requests = []\<rparr>"
  by (simp add: started_engine_def example_engine_def startDownload_def addObserver_def
      Downloader_new_def nullptr_def)

lemma prepared_started_engine:
  "prepared started_engine =
     \<lparr>observers_m = [1], url_m = ''http://example.com/file.bin'', outputPath_m = ''out.bin'',
      downloadedBytes_m = 0, totalBytes_m = 0, state_m = DOWNLOADING, pauseRequested_m = False,
      cancelRequested_m = False, workerThread_m = True, calls = [],
      files = [''out.bin'' \<mapsto> []],
      requests = [\<lparr>req_url = ''http://example.com/file.bin'', req_resumeFrom = None\<rparr>]\<rparr>"
  by (simp add: started_engine_eq prepared_def resumeFrom_of_def seed_offset_def open_output_def
      configure_def)

lemma resolve_cancel:
  "cancelRequested_m d \<Longrightarrow>
   state_m (resolve curl result d) = CANCELLED \<and>
   calls (resolve curl result d) = calls d @ map (\<lambda>obs. (obs, OnCancelled)) (observers_m d) \<and>
   terminal_calls (resolve curl result d) =
     terminal_calls d @ map (\<lambda>obs. (obs, OnCancelled)) (observers_m d)"
  by (simp add: resolve_def notifyCancelled_def terminal_calls_fan_out) (simp add: fan_out_def)

lemma resolve_paused:
  "state_m d = PAUSED \<Longrightarrow>
   state_m (resolve curl result d) = CANCELLED \<and>
   calls (resolve curl result d) = calls d @ map (\<lambda>obs. (obs, OnCancelled)) (observers_m d) \<and>
   terminal_calls (resolve curl result d) =
     terminal_calls d @ map (\<lambda>obs. (obs, OnCancelled)) (observers_m d)"
  by (simp add: resolve_def notifyCancelled_def terminal_calls_fan_out) (simp add: fan_out_def)

text \<open>
  Claim C2. When \<open>perform()\<close> has returned and \<open>cancelRequested_\<close> is set at the exit check,
  the worker ends in \<open>CANCELLED\<close>; over the whole attempt the terminal notifications are
  one \<open>onCancelled\<close> for each observer and nothing else, so no \<open>onError\<close> and no
  \<open>onCompleted\<close>. This holds for every result and every handle (last conjunct).
\<close>

theorem cancel_observed_at_exit:
  assumes "doDownload_transfer sink_opens factory sched d = Some (Performed curl result d1)"
      and "cancelRequested_m d1"
  shows "workerThread sink_opens factory sched d = Some (resolve curl result d1) \<and>
         state_m (resolve curl result d1) = CANCELLED \<and>
         terminal_calls (resolve curl result d1) =
           terminal_calls d @ map (\<lambda>obs. (obs, OnCancelled)) (observers_m d) \<and>
         (\<forall>c r. state_m (resolve c r d1) = CANCELLED \<and>
                calls (resolve c r d1) = calls d1 @ map (\<lambda>obs. (obs, OnCancelled)) (observers_m d))"
proof -
  from transfer_quiet [OF assms(1)]
  have q: "observers_m d1 = observers_m d" "terminal_calls d1 = terminal_calls d"
    by simp_all
  show ?thesis
    using resolve_cancel [OF assms(2)] workerThread_Performed [OF assms(1)]
    by (simp add: q)
qed

theorem cancel_observed_at_exit_witness:
  "doDownload_transfer True (Handle handle_network_error) [Ctl CallCancel] started_engine =
     Some (Performed handle_network_error NETWORK_ERROR (cancel (prepared started_engine))) \<and>
   cancelRequested_m (cancel (prepared started_engine)) \<and>
   map_option state_m (workerThread True (Handle handle_network_error) [Ctl CallCancel] started_engine)
     = Some CANCELLED \<and>
   map_option (received 1) (workerThread True (Handle handle_network_error) [Ctl CallCancel] started_engine)
     = Some [OnCancelled]"
proof -
  have t: "doDownload_transfer True (Handle handle_network_error) [Ctl CallCancel] started_engine =
     Some (Performed handle_network_error NETWORK_ERROR (cancel (prepared started_engine)))"
    by (simp add: doDownload_transfer_Handle perform_def handle_network_error_def)
  have c: "cancelRequested_m (cancel (prepared started_engine))"
    by (simp add: cancel_def)
  have r: "received 1 (resolve handle_network_error NETWORK_ERROR (cancel (prepared started_engine))) = [OnCancelled]"
    by (simp add: resolve_def cancel_def prepared_started_engine notifyCancelled_def fan_out_def received_def)
  from cancel_observed_at_exit [OF t c] t c r show ?thesis
    by simp
qed


lemma run_append:
  "run out (sched @ sched') s =
     (case run out sched s of None \<Rightarrow> None | Some s' \<Rightarrow> run out sched' s')"
  by (induction sched arbitrary: s) (simp_all split: option.split)

lemma perform_then_control:
  assumes "perform curl out sched d = Some (result, d1)"
  shows "perform curl out (sched @ [Ctl c]) d = Some (result, control_call c d1)"
  using perform_Some [OF assms]
  by (auto simp: perform_def run_append)

lemma transfer_then_control:
  assumes "doDownload_transfer sink_opens factory sched d = Some (Performed curl result d1)"
  shows "doDownload_transfer sink_opens factory (sched @ [Ctl c]) d =
           Some (Performed curl result (control_call c d1))"
proof -
  from doDownload_transfer_Performed [OF assms]
  have so: sink_opens and fac: "factory = Handle curl"
    and p: "perform curl (outputPath_m d) sched (prepared d) = Some (result, d1)"
    by simp_all
  from perform_then_control [OF p] so fac show ?thesis
    by (simp add: doDownload_transfer_Handle)
qed

lemma resolve_completed:
  assumes "\<not> cancelRequested_m d" and "state_m d \<noteq> PAUSED" and "getHttpResponseCode curl < 400"
  shows "state_m (resolve curl OK d) = COMPLETED \<and>
         calls (resolve curl OK d) =
           calls d @
           map (\<lambda>obs. (obs, OnProgress (downloadedBytes_m d)
                  (if totalBytes_m d > 0 then totalBytes_m d else downloadedBytes_m d) Percent100))
             (observers_m d) @
           map (\<lambda>obs. (obs, OnCompleted)) (observers_m d) \<and>
         terminal_calls (resolve curl OK d) =
           terminal_calls d @ map (\<lambda>obs. (obs, OnCompleted)) (observers_m d)"
  using assms
  by (simp add: resolve_def Let_def notifyCompleted_def notifyProgress_def terminal_calls_fan_out)
     (simp add: fan_out_def)

lemma resolve_http_error:
  assumes "\<not> cancelRequested_m d" and "state_m d \<noteq> PAUSED" and "getHttpResponseCode curl \<ge> 400"
  shows "state_m (resolve curl OK d) = ERROR \<and>
         calls (resolve curl OK d) =
           calls d @
           map (\<lambda>obs. (obs, OnError (''HTTP error: '' @ to_string (getHttpResponseCode curl))))
             (observers_m d) \<and>
         terminal_calls (resolve curl OK d) =
           terminal_calls d @
           map (\<lambda>obs. (obs, OnError (''HTTP error: '' @ to_string (getHttpResponseCode curl))))
             (observers_m d)"
  using assms
  by (simp add: resolve_def Let_def notifyError_def terminal_calls_fan_out)
     (simp add: fan_out_def)

text \<open>
  Claim C4, amended by the \<open>PAUSED\<close> guard of the source: when \<open>perform()\<close> has returned
  \<open>OK\<close> with \<open>cancelRequested_\<close> unset, the state not \<open>PAUSED\<close> and a response code below
  400, the worker delivers a final \<open>onProgress\<close> with \<open>100.0\<close>, then \<open>onCompleted\<close>, and ends in
  \<open>COMPLETED\<close>; over the whole attempt the terminal notifications are one \<open>onCompleted\<close>
  for each observer and nothing else.
\<close>

theorem completed_outcome:
  assumes "doDownload_transfer sink_opens factory sched d = Some (Performed curl result d1)"
      and "\<not> cancelRequested_m d1" and "state_m d1 \<noteq> PAUSED"
      and "result = OK" and "getHttpResponseCode curl < 400"
  shows "workerThread sink_opens factory sched d = Some (resolve curl result d1) \<and>
         state_m (resolve curl result d1) = COMPLETED \<and>
         calls (resolve curl result d1) =
           calls d1 @
           map (\<lambda>obs. (obs, OnProgress (downloadedBytes_m d1)
                  (if totalBytes_m d1 > 0 then totalBytes_m d1 else downloadedBytes_m d1) Percent100))
             (observers_m d) @
           map (\<lambda>obs. (obs, OnCompleted)) (observers_m d) \<and>
         terminal_calls (resolve curl result d1) =
           terminal_calls d @ map (\<lambda>obs. (obs, OnCompleted)) (observers_m d)"
proof -
  from transfer_quiet [OF assms(1)]
  have q: "observers_m d1 = observers_m d" "terminal_calls d1 = terminal_calls d"
    by simp_all
  show ?thesis
    using resolve_completed [OF assms(2,3,5)] workerThread_Performed [OF assms(1)]
    by (simp add: q assms(4))
qed

lemma zeros_length [simp]: "length (zeros n) = n"
  by (simp add: zeros_def)

text \<open>A concrete run: the hypothesis of a run-level theorem from an evaluation of
  \<open>perform\<close>.\<close>

lemma transfer_by_perform:
  assumes "map_option fst (perform curl (outputPath_m d) sched (prepared d)) = Some result"
  shows "doDownload_transfer True (Handle curl) sched d =
           Some (Performed curl result (snd (the (perform curl (outputPath_m d) sched (prepared d)))))"
proof -
  from assms obtain d1 where "perform curl (outputPath_m d) sched (prepared d) = Some (result, d1)"
    by (cases "perform curl (outputPath_m d) sched (prepared d)") auto
  then show ?thesis
    by (simp add: doDownload_transfer_Handle)
qed

text \<open>
  The scenario of the tests: 4096 bytes in chunks of 1024, response code 200. One
  \<open>onCompleted\<close>, no \<open>onError\<close>, no \<open>onCancelled\<close>, and the last progress is \<open>100.0\<close>.
\<close>

theorem completed_outcome_witness:
  "map_option fst (perform handle_200 (outputPath_m started_engine) mock_4096 (prepared started_engine))
     = Some OK \<and>
   map_option (cancelRequested_m \<circ> snd)
     (perform handle_200 (outputPath_m started_engine) mock_4096 (prepared started_engine)) = Some False \<and>
   map_option (state_m \<circ> snd)
     (perform handle_200 (outputPath_m started_engine) mock_4096 (prepared started_engine))
     = Some DOWNLOADING \<and>
   getHttpResponseCode handle_200 = 200 \<and>
   map_option state_m (workerThread True (Handle handle_200) mock_4096 started_engine) = Some COMPLETED \<and>
   map_option (received 1) (workerThread True (Handle handle_200) mock_4096 started_engine) =
     Some [OnProgress 0 4096 (PercentOf 0 4096), OnProgress 1024 4096 (PercentOf 1024 4096),
           OnProgress 2048 4096 (PercentOf 2048 4096), OnProgress 3072 4096 (PercentOf 3072 4096),
           OnProgress 4096 4096 (PercentOf 4096 4096), OnProgress 4096 4096 Percent100,
           OnCompleted]"
proof -
  let ?p = "perform handle_200 (outputPath_m started_engine) mock_4096 (prepared started_engine)"
  let ?d1 = "snd (the ?p)"
  have r: "map_option fst ?p = Some OK"
    by code_simp
  have nc: "\<not> cancelRequested_m ?d1" and np: "state_m ?d1 \<noteq> PAUSED"
    by code_simp+
  have code: "getHttpResponseCode handle_200 < 400"
    by code_simp
  have facts: "map_option (cancelRequested_m \<circ> snd) ?p = Some False"
    "map_option (state_m \<circ> snd) ?p = Some DOWNLOADING"
    "getHttpResponseCode handle_200 = 200"
    "received 1 (resolve handle_200 OK ?d1) =
       [OnProgress 0 4096 (PercentOf 0 4096), OnProgress 1024 4096 (PercentOf 1024 4096),
           OnProgress 2048 4096 (PercentOf 2048 4096), OnProgress 3072 4096 (PercentOf 3072 4096),
           OnProgress 4096 4096 (PercentOf 4096 4096), OnProgress 4096 4096 Percent100,
           OnCompleted]"
    by code_simp+
  from completed_outcome [OF transfer_by_perform [OF r] nc np refl code] r facts
  show ?thesis
    by simp
qed


text \<open>
  Claim C4 as stated fails: \<open>pause()\<close> is called after the last chunk and only a progress
  callback follows; \<open>perform()\<close> returns \<open>OK\<close> with code 200 and \<open>cancelRequested_\<close> unset, yet
  the state is \<open>PAUSED\<close> at the exit check and the worker ends in \<open>CANCELLED\<close> with
  \<open>onCancelled\<close>, no final progress and no \<open>onCompleted\<close>.
\<close>

theorem completed_outcome_counterexample:
  "map_option fst
     (perform handle_200 (outputPath_m started_engine)
        [Cb (Progress 2 0), Cb (Write ''ok'' True), Ctl CallPause, Cb (Progress 2 2)]
        (prepared started_engine)) = Some OK \<and>
   map_option (cancelRequested_m \<circ> snd)
     (perform handle_200 (outputPath_m started_engine)
        [Cb (Progress 2 0), Cb (Write ''ok'' True), Ctl CallPause, Cb (Progress 2 2)]
        (prepared started_engine)) = Some False \<and>
   getHttpResponseCode handle_200 = 200 \<and>
   map_option state_m
     (workerThread True (Handle handle_200)
        [Cb (Progress 2 0), Cb (Write ''ok'' True), Ctl CallPause, Cb (Progress 2 2)] started_engine)
     = Some CANCELLED \<and>
   map_option (received 1)
     (workerThread True (Handle handle_200)
        [Cb (Progress 2 0), Cb (Write ''ok'' True), Ctl CallPause, Cb (Progress 2 2)] started_engine)
     = Some [OnProgress 0 2 (PercentOf 0 2), OnProgress 2 2 (PercentOf 2 2), OnCancelled]"
  by code_simp

text \<open>
  Claim C7, amended by the \<open>PAUSED\<close> guard of the source: when \<open>perform()\<close> has returned
  \<open>OK\<close> with \<open>cancelRequested_\<close> unset, the state not \<open>PAUSED\<close> and a response code of 400 or
  more, the worker ends in \<open>ERROR\<close> and delivers one \<open>onError\<close> whose message is
  \<open>"HTTP error: "\<close> followed by the decimal code; over the whole attempt the terminal
  notifications are that \<open>onError\<close> for each observer and nothing else.
\<close>

theorem http_error_outcome:
  assumes "doDownload_transfer sink_opens factory sched d = Some (Performed curl result d1)"
      and "\<not> cancelRequested_m d1" and "state_m d1 \<noteq> PAUSED"
      and "result = OK" and "getHttpResponseCode curl \<ge> 400"
  shows "workerThread sink_opens factory sched d = Some (resolve curl result d1) \<and>
         state_m (resolve curl result d1) = ERROR \<and>
         calls (resolve curl result d1) =
           calls d1 @
           map (\<lambda>obs. (obs, OnError (''HTTP error: '' @ to_string (getHttpResponseCode curl))))
             (observers_m d) \<and>
         terminal_calls (resolve curl result d1) =
           terminal_calls d @
           map (\<lambda>obs. (obs, OnError (''HTTP error: '' @ to_string (getHttpResponseCode curl))))
             (observers_m d)"
proof -
  from transfer_quiet [OF assms(1)]
  have q: "observers_m d1 = observers_m d" "terminal_calls d1 = terminal_calls d"
    by simp_all
  show ?thesis
    using resolve_http_error [OF assms(2,3,5)] workerThread_Performed [OF assms(1)]
    by (simp add: q assms(4))
qed

text \<open>
  The scenario of the tests: code 404, result \<open>OK\<close>, empty body. The message is
  \<open>"HTTP error: 404"\<close>.
\<close>

theorem http_error_outcome_witness:
  "map_option fst
     (perform handle_404 (outputPath_m started_engine) [Cb (Progress 0 0)] (prepared started_engine))
     = Some OK \<and>
   map_option (cancelRequested_m \<circ> snd)
     (perform handle_404 (outputPath_m started_engine) [Cb (Progress 0 0)] (prepared started_engine))
     = Some False \<and>
   map_option (state_m \<circ> snd)
     (perform handle_404 (outputPath_m started_engine) [Cb (Progress 0 0)] (prepared started_engine))
     = Some DOWNLOADING \<and>
   getHttpResponseCode handle_404 = 404 \<and>
   map_option state_m (workerThread True (Handle handle_404) [Cb (Progress 0 0)] started_engine)
     = Some ERROR \<and>
   map_option (received 1) (workerThread True (Handle handle_404) [Cb (Progress 0 0)] started_engine)
     = Some [OnProgress 0 0 PercentUnknown, OnError ''HTTP error: 404'']"
proof -
  let ?p = "perform handle_404 (outputPath_m started_engine) [Cb (Progress 0 0)] (prepared started_engine)"
  let ?d1 = "snd (the ?p)"
  have r: "map_option fst ?p = Some OK"
    by code_simp
  have nc: "\<not> cancelRequested_m ?d1" and np: "state_m ?d1 \<noteq> PAUSED"
    by code_simp+
  have code: "getHttpResponseCode handle_404 \<ge> 400"
    by code_simp
  have facts: "map_option (cancelRequested_m \<circ> snd) ?p = Some False"
    "map_option (state_m \<circ> snd) ?p = Some DOWNLOADING"
    "getHttpResponseCode handle_404 = 404"
    "received 1 (resolve handle_404 OK ?d1) = [OnProgress 0 0 PercentUnknown, OnError ''HTTP error: 404'']"
    by code_simp+
  from http_error_outcome [OF transfer_by_perform [OF r] nc np refl code] r facts
  show ?thesis
    by simp
qed

text \<open>
  Claim C7 as stated fails: with \<open>pause()\<close> called before \<open>perform()\<close> returns \<open>OK\<close> with
  code 404 and \<open>cancelRequested_\<close> unset, the worker ends in \<open>CANCELLED\<close> with \<open>onCancelled\<close>
  and no \<open>onError\<close>.
\<close>

theorem http_error_outcome_counterexample:
  "map_option fst
     (perform handle_404 (outputPath_m started_engine) [Ctl CallPause, Cb (Progress 0 0)]
        (prepared started_engine)) = Some OK \<and>
   map_option (cancelRequested_m \<circ> snd)
     (perform handle_404 (outputPath_m started_engine) [Ctl CallPause, Cb (Progress 0 0)]
        (prepared started_engine)) = Some False \<and>
   getHttpResponseCode handle_404 = 404 \<and>
   map_option state_m
     (workerThread True (Handle handle_404) [Ctl CallPause, Cb (Progress 0 0)] started_engine)
     = Some CANCELLED \<and>
   map_option (received 1)
     (workerThread True (Handle handle_404) [Ctl CallPause, Cb (Progress 0 0)] started_engine)
     = Some [OnProgress 0 0 PercentUnknown, OnCancelled]"
  by code_simp

text \<open>
  Claim C1, amended: a pause requested once the transfer has drained, with the state
  \<open>DOWNLOADING\<close>, and still in force when the worker reaches its exit checks, is seen by
  the \<open>PAUSED\<close> guard: whatever the result of \<open>perform()\<close>, the worker ends in \<open>CANCELLED\<close>
  and the terminal notifications of the attempt are one \<open>onCancelled\<close> for each observer,
  with no \<open>onCompleted\<close>.
\<close>

theorem pause_after_drain:
  assumes "doDownload_transfer sink_opens factory sched d = Some (Performed curl result d1)"
      and "state_m d1 = DOWNLOADING"
  shows "workerThread sink_opens factory (sched @ [Ctl CallPause]) d =
           Some (resolve curl result (pause d1)) \<and>
         state_m (resolve curl result (pause d1)) = CANCELLED \<and>
         calls (resolve curl result (pause d1)) =
           calls d1 @ map (\<lambda>obs. (obs, OnCancelled)) (observers_m d) \<and>
         terminal_calls (resolve curl result (pause d1)) =
           terminal_calls d @ map (\<lambda>obs. (obs, OnCancelled)) (observers_m d)"
proof -
  from transfer_quiet [OF assms(1)]
  have q: "observers_m d1 = observers_m d" "terminal_calls d1 = terminal_calls d"
    by simp_all
  have t: "doDownload_transfer sink_opens factory (sched @ [Ctl CallPause]) d =
             Some (Performed curl result (pause d1))"
    using transfer_then_control [OF assms(1), of CallPause] by simp
  have p: "state_m (pause d1) = PAUSED" "calls (pause d1) = calls d1"
    "observers_m (pause d1) = observers_m d1" "terminal_calls (pause d1) = terminal_calls d1"
    using assms(2) by (simp_all add: pause_def terminal_calls_def)
  show ?thesis
    using resolve_paused [OF p(1), of curl result] workerThread_Performed [OF t]
    by (simp add: p q)
qed

theorem pause_after_drain_witness:
  "map_option fst
     (perform handle_200 (outputPath_m started_engine)
        [Cb (Progress 4 0), Cb (Write ''data'' True), Cb (Progress 4 4)] (prepared started_engine))
     = Some OK \<and>
   map_option (state_m \<circ> snd)
     (perform handle_200 (outputPath_m started_engine)
        [Cb (Progress 4 0), Cb (Write ''data'' True), Cb (Progress 4 4)] (prepared started_engine))
     = Some DOWNLOADING \<and>
   map_option state_m
     (workerThread True (Handle handle_200)
        ([Cb (Progress 4 0), Cb (Write ''data'' True), Cb (Progress 4 4)] @ [Ctl CallPause])
        started_engine) = Some CANCELLED \<and>
   map_option (received 1)
     (workerThread True (Handle handle_200)
        ([Cb (Progress 4 0), Cb (Write ''data'' True), Cb (Progress 4 4)] @ [Ctl CallPause])
        started_engine)
     = Some [OnProgress 0 4 (PercentOf 0 4), OnProgress 4 4 (PercentOf 4 4), OnCancelled]"
proof -
  let ?s = "[Cb (Progress 4 0), Cb (Write ''data'' True), Cb (Progress 4 4)]"
  let ?p = "perform handle_200 (outputPath_m started_engine) ?s (prepared started_engine)"
  let ?d1 = "snd (the ?p)"
  have r: "map_option fst ?p = Some OK"
    by code_simp
  have st: "state_m ?d1 = DOWNLOADING"
    by code_simp
  have facts: "map_option (state_m \<circ> snd) ?p = Some DOWNLOADING"
    "received 1 (resolve handle_200 OK (pause ?d1)) =
       [OnProgress 0 4 (PercentOf 0 4), OnProgress 4 4 (PercentOf 4 4), OnCancelled]"
    by code_simp+
  from pause_after_drain [OF transfer_by_perform [OF r] st] r facts
  show ?thesis
    by simp
qed

text \<open>
  Claim C1 as stated fails: the transfer drains, \<open>pause()\<close> is called with no callback
  left, \<open>perform()\<close> returns \<open>OK\<close>, and the attempt ends in \<open>CANCELLED\<close> with \<open>onCancelled\<close>
  as its only terminal notification.
\<close>

theorem pause_after_drain_counterexample:
  "map_option fst
     (perform handle_200 (outputPath_m started_engine)
        [Cb (Progress 4 0), Cb (Write ''data'' True), Cb (Progress 4 4), Ctl CallPause]
        (prepared started_engine)) = Some OK \<and>
   map_option state_m
     (workerThread True (Handle handle_200)
        [Cb (Progress 4 0), Cb (Write ''data'' True), Cb (Progress 4 4), Ctl CallPause]
        started_engine) = Some CANCELLED \<and>
   map_option (filter terminal \<circ> received 1)
     (workerThread True (Handle handle_200)
        [Cb (Progress 4 0), Cb (Write ''data'' True), Cb (Progress 4 4), Ctl CallPause]
        started_engine) = Some [OnCancelled]"
  by code_simp

section \<open>The byte counters\<close>





lemma grows_iff: "grows P d d' \<longleftrightarrow> (\<exists>new. calls d' = calls d @ new \<and> list_all P new)"
proof
  assume "grows P d d'"
  then have "calls d' = calls d @ new_calls d d' \<and> list_all P (new_calls d d')"
    unfolding grows_def new_calls_def by (metis append_take_drop_id)
  then show "\<exists>new. calls d' = calls d @ new \<and> list_all P new"
    by blast
next
  assume "\<exists>new. calls d' = calls d @ new \<and> list_all P new"
  then show "grows P d d'"
    by (auto simp: grows_def new_calls_def)
qed

lemma grows_same: "calls d' = calls d \<Longrightarrow> grows P d d'"
  by (simp add: grows_iff)

lemma grows_trans: "grows P d d' \<Longrightarrow> grows P d' d'' \<Longrightarrow> grows P d d''"
  by (auto simp: grows_iff)

lemma grows_fan_out: "calls d1 = calls d \<Longrightarrow> (\<forall>obs. P (obs, ev)) \<Longrightarrow> grows P d (fan_out ev d1)"
  by (simp add: grows_iff fan_out_def list_all_iff)

lemma write_chunk_counter:
  assumes "0 \<le> downloadedBytes_m d" and "downloadedBytes_m d + int (length data) < 2 ^ 63"
  shows "downloadedBytes_m (snd (write_chunk out data sink_ok d)) =
           (if sink_ok then downloadedBytes_m d + int (length data) else downloadedBytes_m d)"
proof -
  have "i64 (int (length data)) = int (length data)"
    using assms by (intro i64_id) simp_all
  moreover have "i64 (downloadedBytes_m d + int (length data)) = downloadedBytes_m d + int (length data)"
    using assms by (intro i64_id) simp_all
  ultimately show ?thesis
    by (simp add: write_chunk_def)
qed

lemma fst_write_chunk: "fst (write_chunk out data sink_ok d) = (if sink_ok then length data else 0)"
  by (simp add: write_chunk_def)

lemma pending_after_write [simp]: "pending_bytes (after_write data n) = 0"
  by (simp add: after_write_def)

lemma downloadedBytes_fan_out [simp]: "downloadedBytes_m (fan_out ev d) = downloadedBytes_m d"
  by (simp add: fan_out_def)

lemma calls_write_chunk_fan_out:
  "calls (snd (write_chunk out data sink_ok (fan_out ev d))) = calls (fan_out ev d)"
  by simp

text \<open>The write callback keeps the counter within the bytes still to come.\<close>

lemma writeCallback_fits:
  assumes "0 \<le> lo" and "lo \<le> downloadedBytes_m d" and "0 \<le> k"
      and "downloadedBytes_m d + int (length data) + k < 2 ^ 63"
  shows "downloadedBytes_m d \<le> downloadedBytes_m (snd (writeCallback out data sink_ok d)) \<and>
         downloadedBytes_m (snd (writeCallback out data sink_ok d)) +
           int (pending_bytes (fst (writeCallback out data sink_ok d))) + k < 2 ^ 63 \<and>
         grows (progress_at_least lo) d (snd (writeCallback out data sink_ok d))"
proof -
  have w: "downloadedBytes_m (snd (write_chunk out data sink_ok d)) =
           (if sink_ok then downloadedBytes_m d + int (length data) else downloadedBytes_m d)"
    using assms by (intro write_chunk_counter) simp_all
  show ?thesis
    using assms
    by (simp add: writeCallback_def case_prod_beta w notifyPaused_def grows_same grows_fan_out)
qed

lemma waitIfPaused_wake_fits:
  assumes "0 \<le> lo" and "lo \<le> downloadedBytes_m d" and "0 \<le> k"
      and "downloadedBytes_m d + int (length data) + k < 2 ^ 63"
  shows "downloadedBytes_m d \<le> downloadedBytes_m (snd (waitIfPaused_wake out data sink_ok d)) \<and>
         downloadedBytes_m (snd (waitIfPaused_wake out data sink_ok d)) +
           int (pending_bytes (fst (waitIfPaused_wake out data sink_ok d))) + k < 2 ^ 63 \<and>
         grows (progress_at_least lo) d (snd (waitIfPaused_wake out data sink_ok d))"
proof -
  have w: "downloadedBytes_m (snd (write_chunk out data sink_ok (fan_out OnResumed d))) =
           (if sink_ok then downloadedBytes_m d + int (length data) else downloadedBytes_m d)"
    using assms write_chunk_counter [of "fan_out OnResumed d" data out sink_ok] by simp
  have g: "grows (progress_at_least lo) d (snd (write_chunk out data sink_ok (fan_out OnResumed d)))"
  proof (rule grows_trans)
    show "grows (progress_at_least lo) d (fan_out OnResumed d)"
      by (rule grows_fan_out) simp_all
    show "grows (progress_at_least lo) (fan_out OnResumed d)
            (snd (write_chunk out data sink_ok (fan_out OnResumed d)))"
      by (rule grows_same) simp
  qed
  show ?thesis
    using assms
    by (simp add: waitIfPaused_wake_def case_prod_beta w g notifyResumed_def grows_same)
qed

lemma progressCallback_fits:
  assumes "lo \<le> downloadedBytes_m d"
  shows "downloadedBytes_m (snd (progressCallback dltotal dlnow d)) = downloadedBytes_m d \<and>
         grows (progress_at_least lo) d (snd (progressCallback dltotal dlnow d))"
  using assms
  by (simp add: progressCallback_def Let_def notifyProgress_def grows_same grows_fan_out)

lemma downloadedBytes_control_call [simp]:
  "downloadedBytes_m (control_call c d) = downloadedBytes_m d"
  by (cases c) (simp_all add: pause_def resume_def cancel_def)

lemma delivered_bytes_Ctl [simp]: "delivered_bytes (Ctl c # sched) = delivered_bytes sched"
  by simp

lemma delivered_bytes_Progress [simp]:
  "delivered_bytes (Cb (Progress dltotal dlnow) # sched) = delivered_bytes sched"
  by simp

lemma delivered_bytes_Cons_le: "delivered_bytes sched \<le> delivered_bytes (a # sched)"
proof (cases a)
  case (Ctl c)
  then show ?thesis by simp
next
  case (Cb cb)
  then show ?thesis by (cases cb) simp_all
qed

text \<open>One step under the invariant: the counter is at least \<open>lo\<close> and, with the chunk a
  blocked callback holds and the chunks still scheduled, below \<open>2^63\<close>.\<close>

lemma step_fits:
  assumes s: "step out a (ph, d) = Some (ph', d')"
      and lo: "0 \<le> lo" "lo \<le> downloadedBytes_m d"
      and fit: "downloadedBytes_m d + int (pending_bytes ph) + int (delivered_bytes (a # sched)) < 2 ^ 63"
  shows "downloadedBytes_m d \<le> downloadedBytes_m d' \<and>
         downloadedBytes_m d' + int (pending_bytes ph') + int (delivered_bytes sched) < 2 ^ 63 \<and>
         grows (progress_at_least lo) d d'"
  using s
proof (cases rule: step_cases)
  case (ctl c)
  with lo fit show ?thesis
    by (auto simp: grows_same)
next
  case (wake c data sink_ok)
  then have e: "ph' = fst (waitIfPaused_wake out data sink_ok (control_call c d))"
    "d' = snd (waitIfPaused_wake out data sink_ok (control_call c d))"
    by (metis fst_conv, metis snd_conv)
  have g: "grows (progress_at_least lo) d (control_call c d)"
    by (rule grows_same) simp
  from wake lo fit
  have "downloadedBytes_m (control_call c d) + int (length data) + int (delivered_bytes sched) < 2 ^ 63"
    by simp
  from waitIfPaused_wake_fits [OF lo(1) _ _ this, of out sink_ok] lo g show ?thesis
    by (auto simp: e intro: grows_trans)
next
  case (wr data sink_ok)
  then have e: "ph' = fst (writeCallback out data sink_ok d)"
    "d' = snd (writeCallback out data sink_ok d)"
    by (metis fst_conv, metis snd_conv)
  from wr lo fit
  have "downloadedBytes_m d + int (length data) + int (delivered_bytes sched) < 2 ^ 63"
    by simp
  from writeCallback_fits [OF lo _ this, of out sink_ok] show ?thesis
    by (simp add: e)
next
  case (prog dltotal dlnow)
  with lo fit progressCallback_fits [OF lo(2), of dltotal dlnow] show ?thesis
    by auto
next
  case (dropped cb)
  with lo fit delivered_bytes_Cons_le [of sched a] show ?thesis
    by (auto simp: grows_same)
qed

lemma run_fits:
  assumes "run out sched s = Some s'"
      and "0 \<le> lo" "lo \<le> downloadedBytes_m (snd s)"
      and "downloadedBytes_m (snd s) + int (pending_bytes (fst s)) + int (delivered_bytes sched) < 2 ^ 63"
  shows "downloadedBytes_m (snd s) \<le> downloadedBytes_m (snd s') \<and>
         downloadedBytes_m (snd s') < 2 ^ 63 \<and>
         grows (progress_at_least lo) (snd s) (snd s')"
  using assms
proof (induction sched arbitrary: s)
  case Nil
  then show ?case by (auto simp: grows_same)
next
  case (Cons a sched)
  from Cons.prems(1) obtain s1 where s1: "step out a s = Some s1" and r: "run out sched s1 = Some s'"
    by (auto split: option.splits)
  from s1 have "step out a (fst s, snd s) = Some (fst s1, snd s1)"
    by simp
  from step_fits [OF this Cons.prems(2,3,4)]
  have st: "downloadedBytes_m (snd s) \<le> downloadedBytes_m (snd s1)"
    "downloadedBytes_m (snd s1) + int (pending_bytes (fst s1)) + int (delivered_bytes sched) < 2 ^ 63"
    "grows (progress_at_least lo) (snd s) (snd s1)"
    by simp_all
  from Cons.prems(3) st(1) have "lo \<le> downloadedBytes_m (snd s1)"
    by simp
  from Cons.IH [OF r Cons.prems(2) this st(2)] st show ?case
    by (auto intro: grows_trans)
qed


lemma resolve_grows:
  assumes "lo \<le> downloadedBytes_m d"
  shows "grows (progress_at_least lo) d (resolve curl result d)"
  using assms
  by (auto simp: resolve_def Let_def notifyCancelled_def notifyError_def notifyCompleted_def
      notifyProgress_def grows_iff fan_out_def list_all_iff)

lemma existing_size_offset:
  assumes "int (existing_size d) < 2 ^ 63"
  shows "resumeFrom_of (outputPath_m d) d = int (existing_size d)"
proof (cases "files d (outputPath_m d)")
  case None
  then show ?thesis by (simp add: resumeFrom_of_def existing_size_def)
next
  case (Some existing)
  with assms have "i64 (int (length existing)) = int (length existing)"
    by (intro i64_id) (simp_all add: existing_size_def)
  with Some show ?thesis by (simp add: resumeFrom_of_def existing_size_def)
qed

lemma prepared_counter:
  "downloadedBytes_m (prepared d) = resumeFrom_of (outputPath_m d) d"
  "downloadedBytes_m (seed_offset d) = resumeFrom_of (outputPath_m d) d"
  by (simp_all add: prepared_def Let_def open_output_def seed_offset_def)

lemma perform_fits:
  assumes "perform curl out sched d = Some (result, d1)"
      and "0 \<le> lo" "lo \<le> downloadedBytes_m d"
      and "downloadedBytes_m d + int (delivered_bytes sched) < 2 ^ 63"
  shows "downloadedBytes_m d \<le> downloadedBytes_m d1 \<and> grows (progress_at_least lo) d d1"
proof -
  from perform_Some [OF assms(1)] obtain ph where "run out sched (Transferring, d) = Some (ph, d1)"
    by blast
  from run_fits [OF this assms(2)] assms(3,4) show ?thesis
    by simp
qed

lemma workerThread_grows:
  assumes fits: "int (existing_size d) + int (delivered_bytes sched) < 2 ^ 63"
      and w: "workerThread sink_opens factory sched d = Some d'"
  shows "grows (progress_at_least (int (existing_size d))) d d'"
proof -
  let ?lo = "int (existing_size d)"
  have off: "resumeFrom_of (outputPath_m d) d = ?lo"
    using fits by (intro existing_size_offset) simp
  have early: "grows (progress_at_least ?lo) d (notifyError message (x\<lparr>state_m := ERROR\<rparr>))"
    if "calls x = calls d" for message x
    using that by (simp add: notifyError_def grows_iff fan_out_def list_all_iff)
  show ?thesis
  proof (cases sink_opens)
    case False
    with w have "d' = notifyError (''Failed to open output file: '' @ outputPath_m d)
                        ((seed_offset d)\<lparr>state_m := ERROR\<rparr>)"
      by (simp add: workerThread_def doDownload_transfer_def Let_def)
    then show ?thesis
      by (simp add: early seed_offset_def)
  next
    case True
    show ?thesis
    proof (cases factory)
      case NullHandle
      with True w have "d' = notifyError ''Failed to create curl handle''
          ((open_output (outputPath_m d) (resumeFrom_of (outputPath_m d) d) (seed_offset d))\<lparr>state_m := ERROR\<rparr>)"
        by (simp add: workerThread_def doDownload_transfer_def Let_def)
      then show ?thesis
        by (simp add: early seed_offset_def open_output_def)
    next
      case (FactoryThrows e)
      with True w have "d' = notifyError (catch_message e)
          ((open_output (outputPath_m d) (resumeFrom_of (outputPath_m d) d) (seed_offset d))\<lparr>state_m := ERROR\<rparr>)"
        by (simp add: workerThread_def doDownload_transfer_def Let_def)
      then show ?thesis
        by (simp add: early seed_offset_def open_output_def)
    next
      case (Handle curl)
      with True w obtain result d1
        where p: "perform curl (outputPath_m d) sched (prepared d) = Some (result, d1)"
          and d': "d' = resolve curl result d1"
        by (cases "perform curl (outputPath_m d) sched (prepared d)")
          (auto simp: workerThread_def doDownload_transfer_Handle)
      have c: "downloadedBytes_m (prepared d) = ?lo"
        by (simp add: prepared_counter off)
      from perform_fits [OF p, of ?lo] c fits
      have m: "?lo \<le> downloadedBytes_m d1" and g: "grows (progress_at_least ?lo) (prepared d) d1"
        by simp_all
      have "grows (progress_at_least ?lo) d (prepared d)"
        by (rule grows_same) simp
      from grows_trans [OF grows_trans [OF this g] resolve_grows [OF m]] d' show ?thesis
        by simp
    qed
  qed
qed

lemma requests_control_call [simp]: "requests (control_call c d) = requests d"
  by (cases c) (simp_all add: pause_def resume_def cancel_def)

lemma requests_fan_out [simp]: "requests (fan_out ev d) = requests d"
  by (simp add: fan_out_def)

lemma requests_write_chunk [simp]: "requests (snd (write_chunk out data sink_ok d)) = requests d"
  by (simp add: write_chunk_def)

lemma requests_writeCallback: "requests (snd (writeCallback out data sink_ok d)) = requests d"
  by (simp add: writeCallback_def case_prod_beta notifyPaused_def)

lemma requests_waitIfPaused_wake:
  "requests (snd (waitIfPaused_wake out data sink_ok d)) = requests d"
  by (simp add: waitIfPaused_wake_def case_prod_beta notifyResumed_def)

lemma requests_progressCallback: "requests (snd (progressCallback dltotal dlnow d)) = requests d"
  by (simp add: progressCallback_def Let_def notifyProgress_def)

lemma requests_resolve [simp]: "requests (resolve curl result d) = requests d"
  by (simp add: resolve_def Let_def notifyCancelled_def notifyError_def notifyCompleted_def
      notifyProgress_def)

lemma downloadedBytes_resolve [simp]:
  "downloadedBytes_m (resolve curl result d) = downloadedBytes_m d"
  by (simp add: resolve_def Let_def notifyCancelled_def notifyError_def notifyCompleted_def
      notifyProgress_def)

text \<open>The write callback adds to the counter no more than the chunk it was given.\<close>

lemma writeCallback_bound:
  assumes "0 \<le> downloadedBytes_m d" and "downloadedBytes_m d + int (length data) < 2 ^ 63"
  shows "downloadedBytes_m (snd (writeCallback out data sink_ok d)) +
           int (pending_bytes (fst (writeCallback out data sink_ok d)))
         \<le> downloadedBytes_m d + int (length data)"
proof -
  have w: "downloadedBytes_m (snd (write_chunk out data sink_ok d)) =
           (if sink_ok then downloadedBytes_m d + int (length data) else downloadedBytes_m d)"
    using assms by (intro write_chunk_counter) simp_all
  show ?thesis
    by (simp add: writeCallback_def case_prod_beta w notifyPaused_def)
qed

lemma waitIfPaused_wake_bound:
  assumes "0 \<le> downloadedBytes_m d" and "downloadedBytes_m d + int (length data) < 2 ^ 63"
  shows "downloadedBytes_m (snd (waitIfPaused_wake out data sink_ok d)) +
           int (pending_bytes (fst (waitIfPaused_wake out data sink_ok d)))
         \<le> downloadedBytes_m d + int (length data)"
proof -
  have w: "downloadedBytes_m (snd (write_chunk out data sink_ok (fan_out OnResumed d))) =
           (if sink_ok then downloadedBytes_m d + int (length data) else downloadedBytes_m d)"
    using assms write_chunk_counter [of "fan_out OnResumed d" data out sink_ok] by simp
  show ?thesis
    by (simp add: waitIfPaused_wake_def case_prod_beta w notifyResumed_def)
qed

text \<open>One step leaves the handle's configuration alone and moves to the counter at most
  the bytes the action delivers.\<close>

lemma step_bound:
  assumes s: "step out a (ph, d) = Some (ph', d')"
      and nn: "0 \<le> downloadedBytes_m d"
      and fit: "downloadedBytes_m d + int (pending_bytes ph) + int (delivered_bytes (a # sched)) < 2 ^ 63"
  shows "requests d' = requests d \<and>
         downloadedBytes_m d' + int (pending_bytes ph') + int (delivered_bytes sched)
           \<le> downloadedBytes_m d + int (pending_bytes ph) + int (delivered_bytes (a # sched))"
  using s
proof (cases rule: step_cases)
  case (ctl c)
  then show ?thesis by auto
next
  case (wake c data sink_ok)
  then have e: "ph' = fst (waitIfPaused_wake out data sink_ok (control_call c d))"
    "d' = snd (waitIfPaused_wake out data sink_ok (control_call c d))"
    by (metis fst_conv, metis snd_conv)
  from wake nn fit
  have "0 \<le> downloadedBytes_m (control_call c d)"
    "downloadedBytes_m (control_call c d) + int (length data) < 2 ^ 63"
    by simp_all
  from waitIfPaused_wake_bound [OF this, of out sink_ok] wake show ?thesis
    by (simp add: e requests_waitIfPaused_wake)
next
  case (wr data sink_ok)
  then have e: "ph' = fst (writeCallback out data sink_ok d)"
    "d' = snd (writeCallback out data sink_ok d)"
    by (metis fst_conv, metis snd_conv)
  from wr fit have "downloadedBytes_m d + int (length data) < 2 ^ 63"
    by simp
  from writeCallback_bound [OF nn this, of out sink_ok] wr show ?thesis
    by (simp add: e requests_writeCallback)
next
  case (prog dltotal dlnow)
  with progressCallback_fits [of "downloadedBytes_m d" d dltotal dlnow] show ?thesis
    by (simp add: requests_progressCallback)
next
  case (dropped cb)
  with delivered_bytes_Cons_le [of sched a] show ?thesis
    by simp
qed

lemma run_bound:
  assumes "run out sched s = Some s'"
      and "0 \<le> downloadedBytes_m (snd s)"
      and "downloadedBytes_m (snd s) + int (pending_bytes (fst s)) + int (delivered_bytes sched) < 2 ^ 63"
  shows "requests (snd s') = requests (snd s) \<and>
         downloadedBytes_m (snd s') + int (pending_bytes (fst s'))
           \<le> downloadedBytes_m (snd s) + int (pending_bytes (fst s)) + int (delivered_bytes sched)"
  using assms
proof (induction sched arbitrary: s)
  case Nil
  then show ?case by simp
next
  case (Cons a sched)
  from Cons.prems(1) obtain s1 where s1: "step out a s = Some s1" and r: "run out sched s1 = Some s'"
    by (auto split: option.splits)
  from s1 have st: "step out a (fst s, snd s) = Some (fst s1, snd s1)"
    by simp
  from step_fits [OF st order_refl Cons.prems(2,3)]
  have f: "downloadedBytes_m (snd s) \<le> downloadedBytes_m (snd s1)"
    "downloadedBytes_m (snd s1) + int (pending_bytes (fst s1)) + int (delivered_bytes sched) < 2 ^ 63"
    by simp_all
  from step_bound [OF st Cons.prems(2,3)]
  have b: "requests (snd s1) = requests (snd s)"
    "downloadedBytes_m (snd s1) + int (pending_bytes (fst s1)) + int (delivered_bytes sched)
       \<le> downloadedBytes_m (snd s) + int (pending_bytes (fst s)) + int (delivered_bytes (a # sched))"
    by simp_all
  from Cons.prems(2) f(1) have "0 \<le> downloadedBytes_m (snd s1)"
    by simp
  from Cons.IH [OF r this f(2)] b show ?case
    by simp
qed

lemma perform_bound:
  assumes "perform curl out sched d = Some (result, d1)"
      and "0 \<le> downloadedBytes_m d"
      and "downloadedBytes_m d + int (delivered_bytes sched) < 2 ^ 63"
  shows "requests d1 = requests d \<and>
         downloadedBytes_m d1 \<le> downloadedBytes_m d + int (delivered_bytes sched)"
proof -
  from perform_Some [OF assms(1)] obtain ph where "run out sched (Transferring, d) = Some (ph, d1)"
    by blast
  from run_bound [OF this] assms(2,3) show ?thesis
    by auto
qed


lemma transfer_early_exit:
  assumes "doDownload_transfer sink_opens factory sched d = Some e"
      and "e = Returned x \<or> e = Thrown ex x"
  shows "downloadedBytes_m x = resumeFrom_of (outputPath_m d) d \<and> requests x = requests d"
proof (cases sink_opens)
  case False
  with assms show ?thesis
    by (auto simp: doDownload_transfer_def Let_def notifyError_def seed_offset_def)
next
  case True
  show ?thesis
  proof (cases factory)
    case (Handle curl)
    with True assms show ?thesis
      by (cases "perform curl (outputPath_m d) sched (prepared d)")
        (auto simp: doDownload_transfer_Handle)
  next
    case NullHandle
    with True assms show ?thesis
      by (auto simp: doDownload_transfer_def Let_def notifyError_def seed_offset_def open_output_def)
  next
    case (FactoryThrows what)
    with True assms show ?thesis
      by (auto simp: doDownload_transfer_def Let_def seed_offset_def open_output_def)
  qed
qed

text \<open>
  Claim C5, for an attempt whose bytes fit the \<open>int64_t\<close> counter. The resume offset is the
  size of the existing destination file, 0 when it is absent. The worker stores it in
  \<open>downloadedBytes_\<close>: a worker that returns early or throws leaves the counter at the
  offset, and one that reaches \<open>perform()\<close> leaves it between the offset and the offset plus
  the bytes of the schedule (at the offset itself when nothing is delivered). The handle on
  which the worker calls \<open>perform()\<close> carries the URL and, only when the offset is positive,
  the offset set by \<open>setResumeFrom\<close>. Every \<open>onProgress\<close> of the attempt, the final one
  included, reports a downloaded count of at least the offset.
\<close>

theorem resume_offset:
  assumes "int (existing_size d) + int (delivered_bytes sched) < 2 ^ 63"
  shows "resumeFrom_of (outputPath_m d) d = int (existing_size d) \<and>
         downloadedBytes_m (seed_offset d) = int (existing_size d) \<and>
         downloadedBytes_m (prepared d) = int (existing_size d) \<and>
         requests (prepared d) =
           requests d @
           [\<lparr>req_url = url_m d,
             req_resumeFrom = (if 0 < existing_size d then Some (int (existing_size d)) else None)\<rparr>] \<and>
         (\<forall>sink_opens factory d'. workerThread sink_opens factory sched d = Some d' \<longrightarrow>
            grows (progress_at_least (int (existing_size d))) d d') \<and>
         (\<forall>sink_opens factory curl result d1.
            doDownload_transfer sink_opens factory sched d = Some (Performed curl result d1) \<longrightarrow>
            requests d1 =
              requests d @
              [\<lparr>req_url = url_m d,
                req_resumeFrom = (if 0 < existing_size d then Some (int (existing_size d)) else None)\<rparr>] \<and>
            int (existing_size d) \<le> downloadedBytes_m d1 \<and>
            downloadedBytes_m d1 \<le> int (existing_size d) + int (delivered_bytes sched)) \<and>
         (\<forall>sink_opens factory x.
            doDownload_transfer sink_opens factory sched d = Some (Returned x) \<longrightarrow>
            downloadedBytes_m x = int (existing_size d) \<and> requests x = requests d) \<and>
         (\<forall>sink_opens factory ex x.
            doDownload_transfer sink_opens factory sched d = Some (Thrown ex x) \<longrightarrow>
            downloadedBytes_m x = int (existing_size d) \<and> requests x = requests d) \<and>
         (\<forall>curl d'. workerThread True (Handle curl) sched d = Some d' \<longrightarrow>
            requests d' =
              requests d @
              [\<lparr>req_url = url_m d,
                req_resumeFrom = (if 0 < existing_size d then Some (int (existing_size d)) else None)\<rparr>] \<and>
            int (existing_size d) \<le> downloadedBytes_m d' \<and>
            downloadedBytes_m d' \<le> int (existing_size d) + int (delivered_bytes sched))"
proof -
  let ?r = "int (existing_size d)"
  let ?R = "\<lparr>req_url = url_m d,
             req_resumeFrom = (if 0 < existing_size d then Some (int (existing_size d)) else None)\<rparr>"
  have off: "resumeFrom_of (outputPath_m d) d = ?r"
    using assms by (intro existing_size_offset) simp
  have c: "downloadedBytes_m (prepared d) = ?r"
    by (simp add: prepared_counter off)
  have req: "requests (prepared d) = requests d @ [?R]"
    by (simp add: prepared_def Let_def off configure_def open_output_def seed_offset_def)
  have performed: "requests d1 = requests d @ [?R] \<and> ?r \<le> downloadedBytes_m d1 \<and>
      downloadedBytes_m d1 \<le> ?r + int (delivered_bytes sched)"
    if "perform curl (outputPath_m d) sched (prepared d) = Some (result, d1)" for curl result d1
  proof -
    from perform_fits [OF that, of ?r] c assms have "?r \<le> downloadedBytes_m d1"
      by simp
    moreover from perform_bound [OF that] c assms
    have "requests d1 = requests (prepared d)"
      "downloadedBytes_m d1 \<le> ?r + int (delivered_bytes sched)"
      by simp_all
    ultimately show ?thesis
      by (simp add: req)
  qed
  have transfer: "requests d1 = requests d @ [?R] \<and> ?r \<le> downloadedBytes_m d1 \<and>
      downloadedBytes_m d1 \<le> ?r + int (delivered_bytes sched)"
    if "doDownload_transfer sink_opens factory sched d = Some (Performed curl result d1)"
    for sink_opens factory curl result d1
    using doDownload_transfer_Performed [OF that] performed by blast
  have returned: "downloadedBytes_m x = ?r \<and> requests x = requests d"
    if "doDownload_transfer sink_opens factory sched d = Some (Returned x)" for sink_opens factory x
    using transfer_early_exit [OF that, of x] off by simp
  have thrown: "downloadedBytes_m x = ?r \<and> requests x = requests d"
    if "doDownload_transfer sink_opens factory sched d = Some (Thrown ex x)" for sink_opens factory ex x
    using transfer_early_exit [OF that, of x ex] off by simp
  have worker: "requests d' = requests d @ [?R] \<and> ?r \<le> downloadedBytes_m d' \<and>
      downloadedBytes_m d' \<le> ?r + int (delivered_bytes sched)"
    if w: "workerThread True (Handle curl) sched d = Some d'" for curl d'
  proof -
    from w obtain result d1
      where p: "perform curl (outputPath_m d) sched (prepared d) = Some (result, d1)"
        and d': "d' = resolve curl result d1"
      by (cases "perform curl (outputPath_m d) sched (prepared d)")
        (auto simp: workerThread_def doDownload_transfer_Handle)
    from performed [OF p] d' show ?thesis
      by simp
  qed
  from off c req workerThread_grows [OF assms] transfer returned thrown worker show ?thesis
    by (simp add: prepared_counter)
qed

text \<open>
  An existing destination of 1024 bytes: the worker performs on a handle given the offset
  1024, leaves the counter at 1024 when nothing is delivered or the sink does not open, and
  every progress call reports at least 1024 bytes.
\<close>

theorem resume_offset_witness:
  "int (existing_size resumed_engine) + int (delivered_bytes mock_resume_2048) < 2 ^ 63 \<and>
   existing_size resumed_engine = 1024 \<and>
   downloadedBytes_m (prepared resumed_engine) = 1024 \<and>
   requests (prepared resumed_engine) =
     [\<lparr>req_url = ''http://example.com/file.bin'', req_resumeFrom = Some 1024\<rparr>] \<and>
   map_option requests (workerThread True (Handle handle_206) mock_resume_2048 resumed_engine) =
     Some [\<lparr>req_url = ''http://example.com/file.bin'', req_resumeFrom = Some 1024\<rparr>] \<and>
   map_option downloadedBytes_m (workerThread True (Handle handle_206) [] resumed_engine) = Some 1024 \<and>
   map_option downloadedBytes_m (workerThread False (Handle handle_206) mock_resume_2048 resumed_engine)
     = Some 1024 \<and>
   map_option (received 1) (workerThread True (Handle handle_206) mock_resume_2048 resumed_engine) =
     Some [OnProgress 1024 2048 (PercentOf 1024 2048), OnProgress 2048 3072 (PercentOf 2048 3072),
           OnProgress 2048 3072 Percent100, OnCompleted] \<and>
   map_option (grows (progress_at_least 1024) resumed_engine)
     (workerThread True (Handle handle_206) mock_resume_2048 resumed_engine) = Some True"
proof -
  let ?w = "workerThread True (Handle handle_206) mock_resume_2048 resumed_engine"
  let ?empty = "workerThread True (Handle handle_206) [] resumed_engine"
  let ?x = "notifyError (''Failed to open output file: '' @ outputPath_m resumed_engine)
              ((seed_offset resumed_engine)\<lparr>state_m := ERROR\<rparr>)"
  have f: "int (existing_size resumed_engine) + int (delivered_bytes mock_resume_2048) < 2 ^ 63"
    by code_simp
  have f0: "int (existing_size resumed_engine) + int (delivered_bytes []) < 2 ^ 63"
    by code_simp
  have fa: "existing_size resumed_engine = 1024"
    by code_simp
  have fb: "url_m resumed_engine = ''http://example.com/file.bin''"
    by code_simp
  have fc: "requests resumed_engine = []"
    by code_simp
  have fd: "map_option (received 1) ?w =
     Some [OnProgress 1024 2048 (PercentOf 1024 2048), OnProgress 2048 3072 (PercentOf 2048 3072),
           OnProgress 2048 3072 Percent100, OnCompleted]"
    by code_simp
  note facts = fa fb fc fd
  have "map_option state_m ?empty = Some COMPLETED"
    by code_simp
  then obtain d0 where w0: "?empty = Some d0"
    by (cases ?empty) auto
  from facts(4) obtain d' where w: "?w = Some d'"
    by (cases ?w) auto
  have t: "doDownload_transfer False (Handle handle_206) mock_resume_2048 resumed_engine =
             Some (Returned ?x)"
    by (simp add: doDownload_transfer_def Let_def)
  then have wx: "workerThread False (Handle handle_206) mock_resume_2048 resumed_engine = Some ?x"
    by (simp add: workerThread_def)
  note main = resume_offset [OF f]
  from main w have g: "grows (progress_at_least (int (existing_size resumed_engine))) resumed_engine d'"
    by blast
  from main w have rq: "requests d' =
      requests resumed_engine @
      [\<lparr>req_url = url_m resumed_engine,
        req_resumeFrom = (if 0 < existing_size resumed_engine
                          then Some (int (existing_size resumed_engine)) else None)\<rparr>]"
    by blast
  from main t have seeded: "downloadedBytes_m ?x = int (existing_size resumed_engine)"
    by blast
  from resume_offset [OF f0] w0
  have "int (existing_size resumed_engine) \<le> downloadedBytes_m d0 \<and>
        downloadedBytes_m d0 \<le> int (existing_size resumed_engine) + int (delivered_bytes [])"
    by blast
  then have first: "downloadedBytes_m d0 = int (existing_size resumed_engine)"
    by simp
  from main f facts w w0 wx g rq seeded first show ?thesis
    by simp
qed

lemma i64_wrap_zero: "i64 (- (2 ^ 64)) = 0"
  by (simp add: i64_def)

lemma i64_period: "i64 (x - 2 ^ 64) = i64 x"
proof -
  have "i64 (x + i64 (- (2 ^ 64))) = i64 (x + - (2 ^ 64))"
    by (rule i64_add_right)
  then have "i64 (x + 0) = i64 (x + - (2 ^ 64))"
    by (simp only: i64_wrap_zero)
  then show ?thesis
    by simp
qed

lemma i64_positive:
  assumes "0 \<le> x" and "x < 2 ^ 64" and "0 < i64 x"
  shows "i64 x = x"
proof (cases "x < 2 ^ 63")
  case True
  with assms show ?thesis by (intro i64_id) simp_all
next
  case False
  with assms have "i64 (x - 2 ^ 64) = x - 2 ^ 64"
    by (intro i64_id) simp_all
  then have "i64 x = x - 2 ^ 64"
    by (simp only: i64_period)
  with assms show ?thesis
    by simp
qed


lemma totalBytes_control_call [simp]: "totalBytes_m (control_call c d) = totalBytes_m d"
  by (cases c) (simp_all add: pause_def resume_def cancel_def)

lemma totalBytes_fan_out [simp]: "totalBytes_m (fan_out ev d) = totalBytes_m d"
  by (simp add: fan_out_def)

lemma totalBytes_write_chunk [simp]:
  "totalBytes_m (snd (write_chunk out data sink_ok d)) = totalBytes_m d"
  by (simp add: write_chunk_def)

lemma total_known_cong:
  "totalBytes_m d' = totalBytes_m d \<Longrightarrow> total_known r nt d' = total_known r nt d"
  by (cases "snd nt") (simp_all add: total_known_def)

lemma within_total_cong:
  "totalBytes_m d' = totalBytes_m d \<Longrightarrow> downloadedBytes_m d' = downloadedBytes_m d \<Longrightarrow>
   within_total d' = within_total d"
  by (simp add: within_total_def)

text \<open>With the total the engine holds derived from an accurate report, the counter is
  within it.\<close>

lemma total_known_within:
  assumes k: "total_known r (n, T) d" and r: "0 \<le> r" and fit: "r + int n < 2 ^ 63"
      and c: "downloadedBytes_m d \<le> r + int n"
  shows "within_total d"
proof (cases T)
  case None
  with k show ?thesis by (simp add: total_known_def within_total_def)
next
  case (Some t)
  with k have t: "totalBytes_m d = i64 (r + t)" "int n \<le> t" "t < 2 ^ 63"
    by (simp_all add: total_known_def)
  show ?thesis
  proof (cases "0 < i64 (r + t)")
    case False
    with t show ?thesis by (simp add: within_total_def)
  next
    case True
    from r fit t have "0 \<le> r + t" "r + t < 2 ^ 64"
      by simp_all
    from i64_positive [OF this True] t c show ?thesis
      by (simp add: within_total_def)
  qed
qed

lemma in_step_within:
  assumes "in_step r (n, T) (ph, d)" and "0 \<le> r" and "r + int n < 2 ^ 63"
  shows "within_total d"
proof (cases ph)
  case Transferring
  with assms total_known_within [of r n T d] show ?thesis by simp
next
  case (Blocked data sink_ok)
  with assms total_known_within [of r n T d] show ?thesis by simp
next
  case Aborted
  with assms show ?thesis by simp
qed

text \<open>A chunk the callback refuses, and a chunk it goes on to write.\<close>

lemma refused_chunk:
  assumes c: "downloadedBytes_m d + int (length data) = r + int n"
      and k: "total_known r (n, T) d" and r: "0 \<le> r" and fit: "r + int n < 2 ^ 63"
  shows "in_step r (n, T) (after_write data 0, d)"
proof (cases "length data = 0")
  case True
  with c k show ?thesis by (simp add: after_write_def)
next
  case False
  from c have "downloadedBytes_m d \<le> r + int n" by simp
  from total_known_within [OF k r fit this] False show ?thesis
    by (simp add: after_write_def)
qed

lemma written_chunk:
  assumes c: "downloadedBytes_m d + int (length data) = r + int n" and l: "length data \<le> n"
      and k: "total_known r (n, T) d" and r: "0 \<le> r" and fit: "r + int n < 2 ^ 63"
  shows "in_step r (n, T)
           (after_write data (fst (write_chunk out data sink_ok d)), snd (write_chunk out data sink_ok d))"
proof (cases sink_ok)
  case False
  then have "write_chunk out data sink_ok d = (0, d)"
    by (simp add: write_chunk_def)
  with refused_chunk [OF c k r fit] show ?thesis by simp
next
  case True
  from c l r have nn: "0 \<le> downloadedBytes_m d" by simp
  from c fit have "downloadedBytes_m d + int (length data) < 2 ^ 63" by simp
  from write_chunk_counter [OF nn this, of out sink_ok] True c
  have "downloadedBytes_m (snd (write_chunk out data sink_ok d)) = r + int n"
    by simp
  moreover have "total_known r (n, T) (snd (write_chunk out data sink_ok d))"
    using k by (simp add: total_known_cong [of "snd (write_chunk out data sink_ok d)" d])
  ultimately show ?thesis
    using True by (simp add: fst_write_chunk after_write_def)
qed

lemma writeCallback_accurate:
  assumes c: "downloadedBytes_m d + int (length data) = r + int n" and l: "length data \<le> n"
      and k: "total_known r (n, T) d" and r: "0 \<le> r" and fit: "r + int n < 2 ^ 63"
  shows "in_step r (n, T) (writeCallback out data sink_ok d)"
proof (cases "cancelRequested_m d")
  case True
  with refused_chunk [OF c k r fit] show ?thesis
    by (simp add: writeCallback_def)
next
  case False
  show ?thesis
  proof (cases "pauseRequested_m d")
    case True
    with False c l k show ?thesis
      by (simp add: writeCallback_def notifyPaused_def total_known_cong [of "fan_out OnPaused d" d])
  next
    case nopause: False
    with False written_chunk [OF c l k r fit, of out sink_ok] show ?thesis
      by (simp add: writeCallback_def case_prod_beta)
  qed
qed

lemma waitIfPaused_wake_accurate:
  assumes c: "downloadedBytes_m d + int (length data) = r + int n" and l: "length data \<le> n"
      and k: "total_known r (n, T) d" and r: "0 \<le> r" and fit: "r + int n < 2 ^ 63"
  shows "in_step r (n, T) (waitIfPaused_wake out data sink_ok d)"
proof (cases "cancelRequested_m d")
  case True
  with refused_chunk [OF c k r fit] show ?thesis
    by (simp add: waitIfPaused_wake_def)
next
  case False
  show ?thesis
  proof (cases "pauseRequested_m d")
    case True
    with False c l k show ?thesis
      by (simp add: waitIfPaused_wake_def)
  next
    case nopause: False
    have "total_known r (n, T) (fan_out OnResumed d)"
      using k by (simp add: total_known_cong [of "fan_out OnResumed d" d])
    from written_chunk [OF _ l this r fit, of out sink_ok] c False nopause show ?thesis
      by (simp add: waitIfPaused_wake_def case_prod_beta notifyResumed_def)
  qed
qed

lemma progressCallback_accurate:
  assumes c: "downloadedBytes_m d = r + int n" and k: "total_known r (n, T) d"
      and ok: "report_ok (Cb (Progress dltotal dlnow)) (n, T)"
      and r: "0 \<le> r" and fit: "r + int n < 2 ^ 63"
  shows "in_step r (advance (Cb (Progress dltotal dlnow)) (n, T))
           (if fst (progressCallback dltotal dlnow d) = 0 then Transferring else Aborted,
            snd (progressCallback dltotal dlnow d))"
proof (cases "cancelRequested_m d")
  case True
  from c have "downloadedBytes_m d \<le> r + int n" by simp
  from total_known_within [OF k r fit this] True show ?thesis
    by (simp add: progressCallback_def)
next
  case False
  from ok have now: "dlnow = int n" and hi: "dltotal < 2 ^ 63"
    and le: "dltotal \<le> 0 \<or> int n \<le> dltotal"
    by simp_all
  from r fit have "i64 r = r"
    by (intro i64_id) simp_all
  with c now have base: "i64 (downloadedBytes_m d - dlnow) = r" "i64 (r + int n - dlnow) = r"
    by simp_all
  show ?thesis
  proof (cases "dltotal > 0")
    case True
    with False c le hi show ?thesis
      by (simp add: progressCallback_def Let_def base notifyProgress_def total_known_def add.commute)
  next
    case nototal: False
    with False have t: "totalBytes_m (snd (progressCallback dltotal dlnow d)) = totalBytes_m d"
      "downloadedBytes_m (snd (progressCallback dltotal dlnow d)) = downloadedBytes_m d"
      "fst (progressCallback dltotal dlnow d) = 0"
      by (simp_all add: progressCallback_def Let_def notifyProgress_def)
    from total_known_cong [OF t(1)] k
    have "total_known r (n, T) (snd (progressCallback dltotal dlnow d))"
      by simp
    with t c nototal show ?thesis
      by simp
  qed
qed


text \<open>One step keeps the engine's counters in line with an accurate Transport.\<close>

lemma step_accurate:
  assumes s: "step out a (ph, d) = Some (ph', d')"
      and inv: "in_step r (n, T) (ph, d)"
      and ok: "report_ok a (n, T)"
      and r: "0 \<le> r"
      and fit: "r + int (fst (advance a (n, T))) < 2 ^ 63"
  shows "in_step r (advance a (n, T)) (ph', d')"
  using s
proof (cases rule: step_cases)
  case (ctl c)
  show ?thesis
  proof (cases ph)
    case Transferring
    with ctl inv show ?thesis
      by (simp add: total_known_cong [of "control_call c d" d])
  next
    case (Blocked data sink_ok)
    with ctl show ?thesis by simp
  next
    case Aborted
    with ctl inv show ?thesis
      by (simp add: within_total_cong [of "control_call c d" d])
  qed
next
  case (wake c data sink_ok)
  with inv have c: "downloadedBytes_m (control_call c d) + int (length data) = r + int n"
    and l: "length data \<le> n" and k: "total_known r (n, T) (control_call c d)"
    by (simp_all add: total_known_cong [of "control_call c d" d])
  from wake fit have f: "r + int n < 2 ^ 63" by simp
  from waitIfPaused_wake_accurate [OF c l k r f, of out sink_ok] wake show ?thesis
    by simp
next
  case (wr data sink_ok)
  with inv ok have c: "downloadedBytes_m d + int (length data) = r + int (n + length data)"
    and k: "total_known r (n + length data, T) d"
    by (cases T; simp add: total_known_def)+
  from wr fit have f: "r + int (n + length data) < 2 ^ 63" by simp
  from writeCallback_accurate [OF c _ k r f, of out sink_ok] wr show ?thesis
    by simp
next
  case (prog dltotal dlnow)
  with inv have c: "downloadedBytes_m d = r + int n" and k: "total_known r (n, T) d"
    by simp_all
  from prog fit have f: "r + int n < 2 ^ 63" by simp
  from progressCallback_accurate [OF c k _ r f, of dltotal dlnow] ok prog show ?thesis
    by simp
next
  case (dropped cb)
  with inv show ?thesis by simp
qed

lemma advance_delivered:
  "fst (advance a (n, T)) + delivered_bytes sched = n + delivered_bytes (a # sched)"
proof (cases a)
  case (Ctl c)
  then show ?thesis by simp
next
  case (Cb cb)
  then show ?thesis by (cases cb) simp_all
qed

lemma trajectory_within:
  assumes "in_step r nt s" and "accurate nt sched" and "0 \<le> r"
      and "r + int (fst nt) + int (delivered_bytes sched) < 2 ^ 63"
  shows "list_all within_total (trajectory out sched s)"
  using assms
proof (induction sched arbitrary: s nt)
  case Nil
  obtain n T where nt: "nt = (n, T)" by (cases nt)
  obtain ph d where s: "s = (ph, d)" by (cases s)
  from Nil nt s in_step_within [of r n T ph d] show ?case
    by simp
next
  case (Cons a sched)
  obtain n T where nt: "nt = (n, T)" by (cases nt)
  obtain ph d where s: "s = (ph, d)" by (cases s)
  from Cons.prems nt s have here: "within_total d"
    using in_step_within [of r n T ph d] by simp
  show ?case
  proof (cases "step out a s")
    case None
    with here s show ?thesis by simp
  next
    case (Some s1)
    obtain ph1 d1 where s1: "s1 = (ph1, d1)" by (cases s1)
    from Cons.prems(4) nt advance_delivered [of a n T sched]
    have fit': "r + int (fst (advance a (n, T))) + int (delivered_bytes sched) < 2 ^ 63"
      by simp
    then have fit1: "r + int (fst (advance a (n, T))) < 2 ^ 63"
      by simp
    from Some s s1 have st: "step out a (ph, d) = Some (ph1, d1)" by simp
    from Cons.prems(1,2) nt s have "in_step r (n, T) (ph, d)" "report_ok a (n, T)"
      "accurate (advance a (n, T)) sched"
      by simp_all
    from step_accurate [OF st this(1,2) Cons.prems(3) fit1] this(3) fit'
    have "list_all within_total (trajectory out sched (ph1, d1))"
      by (intro Cons.IH [of "advance a (n, T)"]) (simp_all add: Cons.prems(3))
    with Some s s1 here show ?thesis
      by simp
  qed
qed


lemma hd_trajectory [simp]: "hd (trajectory out sched s) = snd s"
  by (cases sched) simp_all

lemma trajectory_not_Nil [simp]: "trajectory out sched s \<noteq> []"
  by (cases sched) simp_all

lemma run_last_trajectory: "run out sched s = Some s' \<Longrightarrow> last (trajectory out sched s) = snd s'"
proof (induction sched arbitrary: s)
  case Nil
  then show ?case by simp
next
  case (Cons a sched)
  from Cons.prems obtain s1 where s1: "step out a s = Some s1" and r: "run out sched s1 = Some s'"
    by (auto split: option.splits)
  from Cons.IH [OF r] s1 show ?case
    by simp
qed

lemma trajectory_sorted:
  assumes "0 \<le> lo" and "lo \<le> downloadedBytes_m (snd s)"
      and "downloadedBytes_m (snd s) + int (pending_bytes (fst s)) + int (delivered_bytes sched) < 2 ^ 63"
  shows "sorted (map downloadedBytes_m (trajectory out sched s)) \<and>
         (\<forall>x \<in> set (trajectory out sched s). downloadedBytes_m (snd s) \<le> downloadedBytes_m x)"
  using assms
proof (induction sched arbitrary: s)
  case Nil
  then show ?case by simp
next
  case (Cons a sched)
  show ?case
  proof (cases "step out a s")
    case None
    then show ?thesis by simp
  next
    case (Some s1)
    then have "step out a (fst s, snd s) = Some (fst s1, snd s1)"
      by simp
    from step_fits [OF this Cons.prems]
    have st: "downloadedBytes_m (snd s) \<le> downloadedBytes_m (snd s1)"
      "downloadedBytes_m (snd s1) + int (pending_bytes (fst s1)) + int (delivered_bytes sched) < 2 ^ 63"
      by simp_all
    from Cons.prems(2) st(1) have "lo \<le> downloadedBytes_m (snd s1)"
      by simp
    from Cons.IH [OF Cons.prems(1) this st(2)] st(1) Some show ?thesis
      by auto
  qed
qed

lemma resolve_counters [simp]:
  "downloadedBytes_m (resolve curl result d) = downloadedBytes_m d"
  "totalBytes_m (resolve curl result d) = totalBytes_m d"
  by (simp_all add: resolve_def Let_def notifyCancelled_def notifyError_def notifyCompleted_def
      notifyProgress_def fan_out_def)

lemma workerThread_last_state:
  assumes "workerThread True (Handle curl) sched d = Some d'"
  shows "downloadedBytes_m d' =
           downloadedBytes_m (last (trajectory (outputPath_m d) sched (Transferring, prepared d))) \<and>
         totalBytes_m d' =
           totalBytes_m (last (trajectory (outputPath_m d) sched (Transferring, prepared d)))"
proof -
  from assms obtain result d1
    where p: "perform curl (outputPath_m d) sched (prepared d) = Some (result, d1)"
      and d': "d' = resolve curl result d1"
    by (cases "perform curl (outputPath_m d) sched (prepared d)")
      (auto simp: workerThread_def doDownload_transfer_Handle)
  from perform_Some [OF p] obtain ph
    where "run (outputPath_m d) sched (Transferring, prepared d) = Some (ph, d1)"
    by blast
  from run_last_trajectory [OF this] d' show ?thesis
    by simp
qed

lemma started_counters:
  assumes "startDownload url outputPath d0 = (True, d)"
  shows "totalBytes_m d = 0" "downloadedBytes_m d = 0"
  using assms by (auto simp: startDownload_def Let_def split: if_splits)

lemma prepared_total [simp]: "totalBytes_m (prepared d) = totalBytes_m d"
  by (simp add: prepared_def Let_def open_output_def seed_offset_def)

text \<open>
  Claim C8, amended. In an attempt started by \<open>startDownload\<close> whose bytes fit the
  \<open>int64_t\<close> counter, \<open>downloadedBytes_\<close> is seeded with the resume offset and never decreases
  from one step to the next; with an accurate Transport \<open>downloadedBytes_ <= totalBytes_\<close>
  holds at every step where \<open>totalBytes_ > 0\<close>. The counters the worker exits with are those
  of the last step.
\<close>

theorem counters_within_attempt:
  assumes start: "startDownload url outputPath d0 = (True, d)"
      and fits: "int (existing_size d) + int (delivered_bytes sched) < 2 ^ 63"
  shows "hd (trajectory (outputPath_m d) sched (Transferring, prepared d)) = prepared d \<and>
         downloadedBytes_m (prepared d) = int (existing_size d) \<and>
         sorted (map downloadedBytes_m (trajectory (outputPath_m d) sched (Transferring, prepared d))) \<and>
         (accurate (0, None) sched \<longrightarrow>
            (\<forall>x \<in> set (trajectory (outputPath_m d) sched (Transferring, prepared d)).
               0 < totalBytes_m x \<longrightarrow> downloadedBytes_m x \<le> totalBytes_m x)) \<and>
         (\<forall>curl d'. workerThread True (Handle curl) sched d = Some d' \<longrightarrow>
            downloadedBytes_m d' =
              downloadedBytes_m (last (trajectory (outputPath_m d) sched (Transferring, prepared d))) \<and>
            totalBytes_m d' =
              totalBytes_m (last (trajectory (outputPath_m d) sched (Transferring, prepared d))))"
proof -
  let ?r = "int (existing_size d)"
  let ?t = "trajectory (outputPath_m d) sched (Transferring, prepared d)"
  have off: "resumeFrom_of (outputPath_m d) d = ?r"
    using fits by (intro existing_size_offset) simp
  have c: "downloadedBytes_m (prepared d) = ?r"
    by (simp add: prepared_counter off)
  have "sorted (map downloadedBytes_m ?t) \<and>
        (\<forall>x \<in> set ?t. downloadedBytes_m (snd (Transferring, prepared d)) \<le> downloadedBytes_m x)"
    using fits c by (intro trajectory_sorted [of ?r]) simp_all
  then have mono: "sorted (map downloadedBytes_m ?t)"
    by simp
  have acc: "\<forall>x \<in> set ?t. 0 < totalBytes_m x \<longrightarrow> downloadedBytes_m x \<le> totalBytes_m x"
    if a: "accurate (0, None) sched"
  proof -
    have "in_step ?r (0, None) (Transferring, prepared d)"
      using c started_counters(1) [OF start] by (simp add: total_known_def)
    from trajectory_within [OF this a, of "outputPath_m d"] fits
    have "list_all within_total ?t"
      by simp
    then show ?thesis
      by (auto simp: list_all_iff within_total_def)
  qed
  from c mono acc workerThread_last_state show ?thesis
    by simp
qed

theorem counters_within_attempt_witness:
  "startDownload ''http://example.com/file.bin'' ''out.bin''
     (addObserver 1 (Downloader_new [''out.bin'' \<mapsto> zeros 1024])) = (True, resumed_engine) \<and>
   int (existing_size resumed_engine) + int (delivered_bytes mock_resume_2048) < 2 ^ 63 \<and>
   accurate (0, None) mock_resume_2048 \<and>
   map downloadedBytes_m
     (trajectory (outputPath_m resumed_engine) mock_resume_2048 (Transferring, prepared resumed_engine))
     = [1024, 1024, 2048, 2048] \<and>
   map totalBytes_m
     (trajectory (outputPath_m resumed_engine) mock_resume_2048 (Transferring, prepared resumed_engine))
     = [0, 2048, 2048, 3072] \<and>
   map_option downloadedBytes_m
     (workerThread True (Handle handle_206) mock_resume_2048 resumed_engine) = Some 2048 \<and>
   map_option totalBytes_m
     (workerThread True (Handle handle_206) mock_resume_2048 resumed_engine) = Some 3072"
proof -
  have st: "startDownload ''http://example.com/file.bin'' ''out.bin''
     (addObserver 1 (Downloader_new [''out.bin'' \<mapsto> zeros 1024])) = (True, resumed_engine)"
    by (simp add: resumed_engine_def startDownload_def Let_def addObserver_def Downloader_new_def)
  have f: "int (existing_size resumed_engine) + int (delivered_bytes mock_resume_2048) < 2 ^ 63"
    by code_simp
  have a: "accurate (0, None) mock_resume_2048"
    by code_simp
  have facts:
    "map downloadedBytes_m
       (trajectory (outputPath_m resumed_engine) mock_resume_2048 (Transferring, prepared resumed_engine))
     = [1024, 1024, 2048, 2048]"
    "map totalBytes_m
       (trajectory (outputPath_m resumed_engine) mock_resume_2048 (Transferring, prepared resumed_engine))
     = [0, 2048, 2048, 3072]"
    "map_option downloadedBytes_m
       (workerThread True (Handle handle_206) mock_resume_2048 resumed_engine) = Some 2048"
    "map_option totalBytes_m
       (workerThread True (Handle handle_206) mock_resume_2048 resumed_engine) = Some 3072"
    by code_simp+
  from counters_within_attempt [OF st f] st f a facts show ?thesis
    by simp
qed

text \<open>
  Claim C8 as stated fails: the engine keeps the total of the last positive report. After
  a report of 10 bytes followed by reports of an unknown total and a chunk of 20 bytes,
  \<open>downloadedBytes_\<close> is 20 and \<open>totalBytes_\<close> is 10, up to and including \<open>COMPLETED\<close>.
\<close>

theorem counters_within_attempt_counterexample:
  "map downloadedBytes_m
     (trajectory (outputPath_m started_engine) stale_total_schedule (Transferring, prepared started_engine))
     = [0, 0, 0, 20, 20] \<and>
   map totalBytes_m
     (trajectory (outputPath_m started_engine) stale_total_schedule (Transferring, prepared started_engine))
     = [0, 10, 10, 10, 10] \<and>
   map_option state_m (workerThread True (Handle handle_200) stale_total_schedule started_engine)
     = Some COMPLETED \<and>
   map_option downloadedBytes_m (workerThread True (Handle handle_200) stale_total_schedule started_engine)
     = Some 20 \<and>
   map_option totalBytes_m (workerThread True (Handle handle_200) stale_total_schedule started_engine)
     = Some 10 \<and>
   map_option (received 1) (workerThread True (Handle handle_200) stale_total_schedule started_engine)
     = Some [OnProgress 0 10 (PercentOf 0 10), OnProgress 0 10 (PercentOf 0 10),
             OnProgress 20 10 (PercentOf 20 10), OnProgress 20 10 Percent100, OnCompleted]"
  by code_simp

section \<open>The registry over whole attempts\<close>



lemma null_free_cong:
  "observers_m d' = observers_m d \<Longrightarrow> calls d' = calls d \<Longrightarrow> null_free d' = null_free d"
  by (simp add: null_free_def)

lemma null_free_fan_out: "null_free d \<Longrightarrow> null_free (fan_out ev d)"
  by (auto simp: null_free_def fan_out_def)

lemma null_free_control_call: "null_free d \<Longrightarrow> null_free (control_call c d)"
  by (simp add: null_free_cong [of "control_call c d" d])

lemma null_free_write_chunk: "null_free d \<Longrightarrow> null_free (snd (write_chunk out data sink_ok d))"
  by (simp add: null_free_cong [of "snd (write_chunk out data sink_ok d)" d])

lemma null_free_writeCallback: "null_free d \<Longrightarrow> null_free (snd (writeCallback out data sink_ok d))"
  by (simp add: writeCallback_def case_prod_beta notifyPaused_def null_free_fan_out
      null_free_write_chunk)

lemma null_free_waitIfPaused_wake:
  "null_free d \<Longrightarrow> null_free (snd (waitIfPaused_wake out data sink_ok d))"
  by (simp add: waitIfPaused_wake_def case_prod_beta notifyResumed_def null_free_fan_out
      null_free_write_chunk)

lemma null_free_progressCallback:
  "null_free d \<Longrightarrow> null_free (snd (progressCallback dltotal dlnow d))"
proof -
  assume n: "null_free d"
  then have "null_free (d\<lparr>totalBytes_m := t\<rparr>)" for t
    by (simp add: null_free_def)
  with n show ?thesis
    by (simp add: progressCallback_def Let_def notifyProgress_def null_free_fan_out)
qed

lemma null_free_step:
  assumes "step out a (ph, d) = Some (ph', d')" and "null_free d"
  shows "null_free d'"
  using assms(1)
proof (cases rule: step_cases)
  case (ctl c)
  with assms(2) show ?thesis by (simp add: null_free_control_call)
next
  case (wake c data sink_ok)
  then have "d' = snd (waitIfPaused_wake out data sink_ok (control_call c d))"
    by (metis snd_conv)
  with assms(2) show ?thesis
    by (simp add: null_free_waitIfPaused_wake null_free_control_call)
next
  case (wr data sink_ok)
  then have "d' = snd (writeCallback out data sink_ok d)"
    by (metis snd_conv)
  with assms(2) show ?thesis by (simp add: null_free_writeCallback)
next
  case (prog dltotal dlnow)
  with assms(2) show ?thesis by (simp add: null_free_progressCallback)
next
  case (dropped cb)
  with assms(2) show ?thesis by simp
qed

lemma null_free_run: "run out sched s = Some s' \<Longrightarrow> null_free (snd s) \<Longrightarrow> null_free (snd s')"
proof (induction sched arbitrary: s)
  case Nil
  then show ?case by simp
next
  case (Cons a sched)
  from Cons.prems(1) obtain s1 where s1: "step out a s = Some s1" and r: "run out sched s1 = Some s'"
    by (auto split: option.splits)
  from s1 have "step out a (fst s, snd s) = Some (fst s1, snd s1)"
    by simp
  from null_free_step [OF this Cons.prems(2)] Cons.IH [OF r] show ?case
    by simp
qed

lemma null_free_state: "null_free (d\<lparr>state_m := x\<rparr>) = null_free d"
  by (simp add: null_free_def)

lemma null_free_resolve: "null_free d \<Longrightarrow> null_free (resolve curl result d)"
  by (simp add: resolve_def Let_def notifyCancelled_def notifyError_def notifyCompleted_def
      notifyProgress_def null_free_fan_out null_free_state)

lemma null_free_workerThread:
  assumes w: "workerThread sink_opens factory sched d = Some d'" and n: "null_free d"
  shows "null_free d'"
proof -
  have early: "null_free (notifyError message (x\<lparr>state_m := ERROR\<rparr>))"
    if "observers_m x = observers_m d" "calls x = calls d" for message x
    using that n
    by (simp add: notifyError_def null_free_fan_out null_free_state null_free_cong [of x d])
  show ?thesis
  proof (cases sink_opens)
    case False
    with w have "d' = notifyError (''Failed to open output file: '' @ outputPath_m d)
                        ((seed_offset d)\<lparr>state_m := ERROR\<rparr>)"
      by (simp add: workerThread_def doDownload_transfer_def Let_def)
    then show ?thesis
      by (simp add: early seed_offset_def)
  next
    case True
    show ?thesis
    proof (cases factory)
      case NullHandle
      with True w have "d' = notifyError ''Failed to create curl handle''
          ((open_output (outputPath_m d) (resumeFrom_of (outputPath_m d) d) (seed_offset d))\<lparr>state_m := ERROR\<rparr>)"
        by (simp add: workerThread_def doDownload_transfer_def Let_def)
      then show ?thesis
        by (simp add: early seed_offset_def open_output_def)
    next
      case (FactoryThrows e)
      with True w have "d' = notifyError (catch_message e)
          ((open_output (outputPath_m d) (resumeFrom_of (outputPath_m d) d) (seed_offset d))\<lparr>state_m := ERROR\<rparr>)"
        by (simp add: workerThread_def doDownload_transfer_def Let_def)
      then show ?thesis
        by (simp add: early seed_offset_def open_output_def)
    next
      case (Handle curl)
      with True w obtain result d1
        where p: "perform curl (outputPath_m d) sched (prepared d) = Some (result, d1)"
          and d': "d' = resolve curl result d1"
        by (cases "perform curl (outputPath_m d) sched (prepared d)")
          (auto simp: workerThread_def doDownload_transfer_Handle)
      from perform_Some [OF p] obtain ph
        where r: "run (outputPath_m d) sched (Transferring, prepared d) = Some (ph, d1)"
        by blast
      have "null_free (prepared d)"
        using n by (simp add: null_free_cong [of "prepared d" d])
      with null_free_run [OF r] have "null_free d1"
        by simp
      with d' show ?thesis
        by (simp add: null_free_resolve)
    qed
  qed
qed

lemma null_free_startDownload: "null_free d \<Longrightarrow> null_free (snd (startDownload url outputPath d))"
  by (simp add: startDownload_def Let_def null_free_def)

lemma null_free_attempt:
  assumes "attempt url outputPath sink_opens factory sched d = Some (started, d')" and "null_free d"
  shows "null_free d'"
proof (cases "fst (startDownload url outputPath d)")
  case False
  with assms(1) have "d' = snd (startDownload url outputPath d)"
    by (auto simp: attempt_def split: prod.splits bool.splits)
  with assms(2) show ?thesis
    by (simp add: null_free_startDownload)
next
  case True
  with assms(1) have "workerThread sink_opens factory sched (snd (startDownload url outputPath d)) = Some d'"
    by (auto simp: attempt_def split: prod.splits bool.splits)
  from null_free_workerThread [OF this] assms(2) show ?thesis
    by (simp add: null_free_startDownload)
qed

lemma null_free_registry_call: "null_free d \<Longrightarrow> null_free (apply_registry_call rc d)"
  by (cases rc) (auto simp: null_free_def addObserver_def removeObserver_def)

lemma null_free_client_call:
  assumes "apply_client_call c d = Some d'" and "null_free d"
  shows "null_free d'"
proof (cases c)
  case (CallRegistry rc)
  with assms show ?thesis by (auto simp: null_free_registry_call)
next
  case (CallControl x)
  with assms show ?thesis by (auto simp: null_free_control_call)
next
  case (CallAttempt url outputPath sink_opens factory sched)
  with assms(1) obtain started
    where "attempt url outputPath sink_opens factory sched d = Some (started, d')"
    by auto
  from null_free_attempt [OF this assms(2)] show ?thesis .
qed

lemma null_free_client_calls:
  "client_calls cs d = Some d' \<Longrightarrow> null_free d \<Longrightarrow> null_free d'"
proof (induction cs arbitrary: d)
  case Nil
  then show ?case by simp
next
  case (Cons c cs)
  from Cons.prems(1) obtain d1 where c: "apply_client_call c d = Some d1" and r: "client_calls cs d1 = Some d'"
    by (auto split: option.splits)
  from Cons.IH [OF r null_free_client_call [OF c Cons.prems(2)]] show ?case .
qed

text \<open>
  Claim C10. \<open>addObserver(nullptr)\<close> changes nothing. Whatever the client does with a new
  engine (registry calls, control calls, whole attempts), the observer list never holds
  \<open>nullptr\<close> and no call is ever made through \<open>nullptr\<close>.
\<close>

theorem addObserver_null_guard:
  "addObserver nullptr d = d \<and>
   (\<forall>d'. client_calls cs (Downloader_new fs) = Some d' \<longrightarrow>
      nullptr \<notin> set (observers_m d') \<and> (\<forall>c \<in> set (calls d'). fst c \<noteq> nullptr))"
proof -
  have guard: "addObserver nullptr d = d"
    by (simp add: addObserver_def)
  have start: "null_free (Downloader_new fs)"
    by (simp add: null_free_def Downloader_new_def)
  have "nullptr \<notin> set (observers_m d') \<and> (\<forall>c \<in> set (calls d'). fst c \<noteq> nullptr)"
    if r: "client_calls cs (Downloader_new fs) = Some d'" for d'
    using null_free_client_calls [OF r start] by (force simp: null_free_def)
  with guard show ?thesis
    by blast
qed


theorem addObserver_null_guard_witness:
  "addObserver nullptr (Downloader_new Map.empty) = Downloader_new Map.empty \<and>
   map_option observers_m
     (client_calls
        [CallRegistry (AddObserver nullptr), CallRegistry (AddObserver 3),
         CallAttempt ''http://example.com/file.bin'' ''out.bin'' True (Handle handle_200) small_schedule,
         CallRegistry (AddObserver nullptr)]
        (Downloader_new Map.empty)) = Some [3] \<and>
   map_option (map fst \<circ> calls)
     (client_calls
        [CallRegistry (AddObserver nullptr), CallRegistry (AddObserver 3),
         CallAttempt ''http://example.com/file.bin'' ''out.bin'' True (Handle handle_200) small_schedule,
         CallRegistry (AddObserver nullptr)]
        (Downloader_new Map.empty)) = Some [3, 3, 3, 3]"
proof -
  let ?cs = "[CallRegistry (AddObserver nullptr), CallRegistry (AddObserver 3),
         CallAttempt ''http://example.com/file.bin'' ''out.bin'' True (Handle handle_200) small_schedule,
         CallRegistry (AddObserver nullptr)]"
  let ?r = "client_calls ?cs (Downloader_new Map.empty)"
  have facts: "map_option observers_m ?r = Some [3]" "map_option (map fst \<circ> calls) ?r = Some [3, 3, 3, 3]"
    by code_simp+
  then obtain d' where r: "?r = Some d'"
    by (cases ?r) auto
  from addObserver_null_guard [of "Downloader_new Map.empty" ?cs Map.empty] r facts
  show ?thesis
    by simp
qed

lemma resolve_state_COMPLETED:
  assumes "state_m (resolve curl result d) = COMPLETED"
  shows "\<not> cancelRequested_m d \<and> state_m d \<noteq> PAUSED \<and> result = OK \<and> getHttpResponseCode curl < 400"
proof -
  have s: "state_m (fan_out ev (x\<lparr>state_m := v\<rparr>)) = v" for ev x v
    by (simp add: fan_out_def)
  from assms show ?thesis
    by (simp add: resolve_def Let_def notifyCancelled_def notifyError_def notifyCompleted_def s
        split: if_splits)
qed

lemma workerThread_COMPLETED:
  assumes w: "workerThread sink_opens factory sched d = Some d'" and c: "state_m d' = COMPLETED"
  shows "observers_m d' = observers_m d \<and>
         terminal_calls d' = terminal_calls d @ map (\<lambda>obs. (obs, OnCompleted)) (observers_m d)"
proof (cases "doDownload_transfer sink_opens factory sched d")
  case None
  with w show ?thesis by (simp add: workerThread_def)
next
  case (Some e)
  have early: "state_m (notifyError message (x\<lparr>state_m := ERROR\<rparr>)) = ERROR" for message x
    by (simp add: notifyError_def fan_out_def)
  show ?thesis
  proof (cases e)
    case (Returned x)
    from Some Returned have "state_m x = ERROR"
      by (auto simp: doDownload_transfer_def Let_def early
          split: if_splits factory_result.splits option.splits)
    with Some Returned w c show ?thesis
      by (simp add: workerThread_def)
  next
    case (Thrown ex x)
    with Some w have "d' = notifyError (catch_message ex) (x\<lparr>state_m := ERROR\<rparr>)"
      by (simp add: workerThread_def)
    with early [of "catch_message ex" x] c show ?thesis
      by simp
  next
    case (Performed curl result d1)
    with Some have t: "doDownload_transfer sink_opens factory sched d = Some (Performed curl result d1)"
      by simp
    from workerThread_Performed [OF t] w have d': "d' = resolve curl result d1"
      by simp
    from resolve_state_COMPLETED [of curl result d1] c d'
    have h: "\<not> cancelRequested_m d1" "state_m d1 \<noteq> PAUSED" "result = OK"
      "getHttpResponseCode curl < 400"
      by simp_all
    from transfer_quiet [OF t]
    have q: "observers_m d1 = observers_m d" "terminal_calls d1 = terminal_calls d"
      by simp_all
    have "observers_m (resolve curl OK d1) = observers_m d1"
      by (simp add: resolve_def Let_def notifyCancelled_def notifyError_def notifyCompleted_def
          notifyProgress_def)
    with resolve_completed [OF h(1,2,4)] d' h(3) q show ?thesis
      by simp
  qed
qed

lemma terminal_received:
  "filter terminal (received obs d) = map snd (filter (\<lambda>c. fst c = obs) (terminal_calls d))"
  by (simp add: received_def terminal_calls_def filter_map o_def conj_commute)

lemma attempt_completed_once:
  assumes a: "attempt url outputPath sink_opens factory sched d = Some (True, d')"
      and c: "state_m d' = COMPLETED"
      and dist: "distinct (observers_m d)" and mem: "obs \<in> set (observers_m d)"
  shows "filter terminal (received obs d') = filter terminal (received obs d) @ [OnCompleted]"
proof -
  let ?s = "snd (startDownload url outputPath d)"
  from a have w: "workerThread sink_opens factory sched ?s = Some d'"
    by (auto simp: attempt_def split: prod.splits bool.splits)
  have s: "observers_m ?s = observers_m d" "terminal_calls ?s = terminal_calls d"
    by (simp_all add: startDownload_def Let_def terminal_calls_def)
  from workerThread_COMPLETED [OF w c] s
  have "terminal_calls d' = terminal_calls d @ map (\<lambda>obs. (obs, OnCompleted)) (observers_m d)"
    by simp
  then show ?thesis
    by (simp add: terminal_received filter_fst_fan filter_eq_singleton [OF dist mem])
qed

text \<open>An attempt leaves the registry as it found it, so the registry of every engine the
  client can reach is duplicate-free.\<close>

lemma observers_resolve [simp]: "observers_m (resolve curl result d) = observers_m d"
  by (simp add: resolve_def Let_def notifyCancelled_def notifyError_def notifyCompleted_def
      notifyProgress_def)

lemma observers_workerThread:
  assumes w: "workerThread sink_opens factory sched d = Some d'"
  shows "observers_m d' = observers_m d"
proof (cases "doDownload_transfer sink_opens factory sched d")
  case None
  with w show ?thesis by (simp add: workerThread_def)
next
  case (Some e)
  show ?thesis
  proof (cases e)
    case (Returned x)
    with Some w have "d' = x" by (simp add: workerThread_def)
    with Some Returned show ?thesis
      by (auto simp: doDownload_transfer_def Let_def notifyError_def seed_offset_def open_output_def
          split: if_splits factory_result.splits option.splits)
  next
    case (Thrown ex x)
    with Some w have d': "d' = notifyError (catch_message ex) (x\<lparr>state_m := ERROR\<rparr>)"
      by (simp add: workerThread_def)
    from Some Thrown have "observers_m x = observers_m d"
      by (auto simp: doDownload_transfer_def Let_def seed_offset_def open_output_def
          split: if_splits factory_result.splits option.splits)
    with d' show ?thesis by (simp add: notifyError_def)
  next
    case (Performed curl result d1)
    with Some have t: "doDownload_transfer sink_opens factory sched d = Some (Performed curl result d1)"
      by simp
    from workerThread_Performed [OF t] w transfer_quiet [OF t] show ?thesis
      by simp
  qed
qed

lemma observers_attempt:
  assumes "attempt url outputPath sink_opens factory sched d = Some (started, d')"
  shows "observers_m d' = observers_m d"
proof -
  have s: "observers_m (snd (startDownload url outputPath d)) = observers_m d"
    by (simp add: startDownload_def Let_def)
  show ?thesis
  proof (cases "fst (startDownload url outputPath d)")
    case False
    with assms have "d' = snd (startDownload url outputPath d)"
      by (auto simp: attempt_def split: prod.splits bool.splits)
    with s show ?thesis by simp
  next
    case True
    with assms have "workerThread sink_opens factory sched (snd (startDownload url outputPath d)) = Some d'"
      by (auto simp: attempt_def split: prod.splits bool.splits)
    from observers_workerThread [OF this] s show ?thesis by simp
  qed
qed

lemma distinct_client_call:
  assumes "apply_client_call c d = Some d'" and "distinct (observers_m d)"
  shows "distinct (observers_m d')"
proof (cases c)
  case (CallRegistry rc)
  with assms show ?thesis by (auto simp: distinct_registry_call)
next
  case (CallControl x)
  with assms show ?thesis by auto
next
  case (CallAttempt url outputPath sink_opens factory sched)
  with assms(1) obtain started
    where "attempt url outputPath sink_opens factory sched d = Some (started, d')"
    by auto
  from observers_attempt [OF this] assms(2) show ?thesis by simp
qed

lemma distinct_client_calls:
  "client_calls cs d = Some d' \<Longrightarrow> distinct (observers_m d) \<Longrightarrow> distinct (observers_m d')"
proof (induction cs arbitrary: d)
  case Nil
  then show ?case by simp
next
  case (Cons c cs)
  from Cons.prems(1) obtain d1 where c: "apply_client_call c d = Some d1" and r: "client_calls cs d1 = Some d'"
    by (auto split: option.splits)
  from Cons.IH [OF r distinct_client_call [OF c Cons.prems(2)]] show ?case .
qed

lemma distinct_reachable:
  "client_calls cs (Downloader_new fs) = Some d \<Longrightarrow> distinct (observers_m d)"
  by (erule distinct_client_calls) (simp add: Downloader_new_def)

text \<open>
  Claim C9. \<open>addObserver\<close> is idempotent, \<open>removeObserver\<close> of an observer that is not
  registered changes nothing, and an observer registered any number of times (at least
  once) is held once: every notification, \<open>onCompleted\<close> in particular, reaches it exactly
  once, and an attempt that ends in \<open>COMPLETED\<close> brings it exactly one \<open>onCompleted\<close> and no
  other terminal notification. The registry of a reachable engine is duplicate-free
  (\<open>distinct_reachable\<close>).
\<close>

theorem addObserver_idempotent:
  "addObserver obs (addObserver obs d) = addObserver obs d \<and>
   (obs \<notin> set (observers_m d) \<longrightarrow> removeObserver obs d = d) \<and>
   (distinct (observers_m d) \<and> obs \<noteq> nullptr \<longrightarrow>
      (addObserver obs ^^ Suc n) d = addObserver obs d \<and>
      length (filter (\<lambda>x. x = obs) (observers_m ((addObserver obs ^^ Suc n) d))) = 1 \<and>
      (\<forall>ev. received obs (fan_out ev ((addObserver obs ^^ Suc n) d)) = received obs d @ [ev]) \<and>
      received obs (notifyCompleted (addObserver obs (addObserver obs (addObserver obs d)))) =
        received obs d @ [OnCompleted] \<and>
      (\<forall>url outputPath sink_opens factory sched d'.
         attempt url outputPath sink_opens factory sched ((addObserver obs ^^ Suc n) d) = Some (True, d') \<and>
         state_m d' = COMPLETED \<longrightarrow>
         filter terminal (received obs d') = filter terminal (received obs d) @ [OnCompleted]))"
proof -
  have idem: "addObserver obs (addObserver obs d) = addObserver obs d"
    by (rule addObserver_twice)
  have absent: "removeObserver obs d = d" if "obs \<notin> set (observers_m d)"
    using that by (rule removeObserver_absent)
  have rep: "(addObserver obs ^^ Suc n) d = addObserver obs d"
    by (rule addObserver_repeat)
  have once: "length (filter (\<lambda>x. x = obs) (observers_m ((addObserver obs ^^ Suc n) d))) = 1 \<and>
      (\<forall>ev. received obs (fan_out ev ((addObserver obs ^^ Suc n) d)) = received obs d @ [ev]) \<and>
      received obs (notifyCompleted (addObserver obs (addObserver obs (addObserver obs d)))) =
        received obs d @ [OnCompleted] \<and>
      (\<forall>url outputPath sink_opens factory sched d'.
         attempt url outputPath sink_opens factory sched ((addObserver obs ^^ Suc n) d) = Some (True, d') \<and>
         state_m d' = COMPLETED \<longrightarrow>
         filter terminal (received obs d') = filter terminal (received obs d) @ [OnCompleted])"
    if h: "distinct (observers_m d) \<and> obs \<noteq> nullptr"
  proof -
    have dist: "distinct (observers_m (addObserver obs d))"
      using h by (simp add: distinct_addObserver)
    have mem: "obs \<in> set (observers_m (addObserver obs d))"
      using h by (simp add: member_addObserver)
    have one: "length (filter (\<lambda>x. x = obs) (observers_m ((addObserver obs ^^ Suc n) d))) = 1"
      by (simp only: addObserver_repeat filter_eq_singleton [OF dist mem]) simp
    have each: "received obs (fan_out ev ((addObserver obs ^^ Suc n) d)) = received obs d @ [ev]" for ev
      by (simp only: addObserver_repeat received_fan_out_member [OF dist mem] received_addObserver)
    have three: "received obs (notifyCompleted (addObserver obs (addObserver obs (addObserver obs d)))) =
        received obs d @ [OnCompleted]"
      by (simp only: addObserver_twice notifyCompleted_def received_fan_out_member [OF dist mem]
          received_addObserver)
    have run: "filter terminal (received obs d') = filter terminal (received obs d) @ [OnCompleted]"
      if "attempt url outputPath sink_opens factory sched ((addObserver obs ^^ Suc n) d) = Some (True, d') \<and>
          state_m d' = COMPLETED" for url outputPath sink_opens factory sched d'
    proof -
      from that have a: "attempt url outputPath sink_opens factory sched (addObserver obs d) = Some (True, d')"
        and c: "state_m d' = COMPLETED"
        by (simp_all only: addObserver_repeat)
      from attempt_completed_once [OF a c dist mem] show ?thesis
        by (simp only: received_addObserver)
    qed
    from one each three run show ?thesis
      by blast
  qed
  from idem absent rep once show ?thesis
    by blast
qed

theorem addObserver_idempotent_witness:
  "(5::nat) \<notin> set (observers_m (Downloader_new Map.empty)) \<and>
   removeObserver 5 (Downloader_new Map.empty) = Downloader_new Map.empty \<and>
   distinct (observers_m (Downloader_new Map.empty)) \<and> (5::nat) \<noteq> nullptr \<and>
   observers_m (addObserver 5 (addObserver 5 (addObserver 5 (Downloader_new Map.empty)))) = [5] \<and>
   received 5 (notifyCompleted (addObserver 5 (addObserver 5 (addObserver 5 (Downloader_new Map.empty)))))
     = [OnCompleted] \<and>
   map_option (state_m \<circ> snd)
     (attempt ''http://example.com/file.bin'' ''out.bin'' True (Handle handle_200) small_schedule
        (addObserver 5 (addObserver 5 (addObserver 5 (Downloader_new Map.empty))))) = Some COMPLETED \<and>
   map_option (filter terminal \<circ> received 5 \<circ> snd)
     (attempt ''http://example.com/file.bin'' ''out.bin'' True (Handle handle_200) small_schedule
        (addObserver 5 (addObserver 5 (addObserver 5 (Downloader_new Map.empty))))) = Some [OnCompleted]"
proof -
  let ?e = "addObserver 5 (addObserver 5 (addObserver 5 (Downloader_new Map.empty)))"
  let ?a = "attempt ''http://example.com/file.bin'' ''out.bin'' True (Handle handle_200) small_schedule ?e"
  have e: "(addObserver 5 ^^ Suc 2) (Downloader_new Map.empty) = ?e"
    by (simp add: numeral_2_eq_2)
  have facts: "map_option fst ?a = Some True" "map_option (state_m \<circ> snd) ?a = Some COMPLETED"
    "map_option (filter terminal \<circ> received 5 \<circ> snd) ?a = Some [OnCompleted]"
    by code_simp+
  then obtain d' where a: "?a = Some (True, d')" and c: "state_m d' = COMPLETED"
    by (cases ?a) auto
  have r: "received 5 (Downloader_new Map.empty) = []"
    by (simp add: received_def Downloader_new_def)
  from addObserver_idempotent [of 5 "Downloader_new Map.empty" 2] a c facts
  show ?thesis
    by (simp add: e r) (simp add: Downloader_new_def nullptr_def addObserver_def)
qed

end
